theory Spec2Isabelle
  imports Main "HOL-Library.Sublist"
begin

section \<open>The CORD-19 ETL (\<open>etl.py\<close>): a shallow embedding\<close>

text \<open>
  The program reads a metadata table (one row per paper), resolves an identifier per
  row, parses a date, reads the body text of the paper from JSON files, tags the paper
  by keyword and writes one article row and one section row per text fragment into an
  SQLite store.

  Conventions of the embedding.
  \<^item> A Python \<open>str\<close> is a \<open>string\<close>: a list of HOL characters, read as the code
    points 0 to 255 (Latin-1). \<open>str.lower\<close> and \<open>str.isdigit\<close> are written out for
    exactly these code points.
  \<^item> Python's \<open>None\<close> is \<open>None\<close> of an option type where a value may be absent, and
    \<open>VNone\<close> among the values handed to the store.
  \<^item> A call that may raise returns \<open>exn + 'a\<close>, with \<open>Inl\<close> the exception. Every
    \<open>try\<close>/\<open>except\<close> of the source is a case distinction on such a result.
  \<^item> Functions of imported libraries (\<open>hashlib\<close>, \<open>dateutil\<close>, \<open>nltk\<close>, \<open>json\<close> and
    the file system, \<open>sqlite3\<close>) are fields of a record \<open>world\<close>, passed to every
    function that calls them.
  \<^item> Mutation is state passing: the set of generated ids, the two counters and the
    store are returned updated. Progress lines printed to standard output are left out.
\<close>

subsection \<open>Strings\<close>

text \<open>\<open>x in s\<close> for two strings: \<open>x\<close> occurs in \<open>s\<close> as a contiguous substring.\<close>

fun py_in :: "string \<Rightarrow> string \<Rightarrow> bool" where
  "py_in x [] = (x = [])"
| "py_in x (c # cs) = (prefix x (c # cs) \<or> py_in x cs)"

text \<open>\<open>s.startswith(p)\<close>.\<close>

definition startswith :: "string \<Rightarrow> string \<Rightarrow> bool" where
  "startswith s p = prefix p s"

text \<open>
  \<open>str.lower\<close> on the code points below 256: the letters A to Z, and the Latin-1 capital
  letters U+00C0 to U+00DE without the multiplication sign U+00D7, move up by 32.
\<close>

definition lower_char :: "char \<Rightarrow> char" where
  "lower_char c =
     (let n = (of_char c :: nat)
      in if (65 \<le> n \<and> n \<le> 90) \<or> (192 \<le> n \<and> n \<le> 222 \<and> n \<noteq> 215)
         then char_of (n + 32) else c)"

definition lower :: "string \<Rightarrow> string" where
  "lower s = map lower_char s"

text \<open>
  \<open>str.isdigit\<close> on the code points below 256: the digits 0 to 9 and the superscript
  digits U+00B2, U+00B3, U+00B9; the empty string is not a digit string.
\<close>

definition digit_char :: "char \<Rightarrow> bool" where
  "digit_char c =
     (let n = (of_char c :: nat)
      in (48 \<le> n \<and> n \<le> 57) \<or> n = 178 \<or> n = 179 \<or> n = 185)"

definition isdigit :: "string \<Rightarrow> bool" where
  "isdigit s = (s \<noteq> [] \<and> list_all digit_char s)"

text \<open>
  \<open>s.split(sep)\<close> for a non-empty separator: the pieces between the occurrences of
  \<open>sep\<close>, found from the left without overlap. \<open>acc\<close> is the piece being read. (Python
  raises on an empty separator; the program only splits on \<open>"; "\<close>.)
\<close>

fun split_from :: "string \<Rightarrow> string \<Rightarrow> string \<Rightarrow> string list" where
  "split_from sep acc [] = [acc]"
| "split_from sep acc (c # cs) =
     (if sep \<noteq> [] \<and> prefix sep (c # cs)
      then acc # split_from sep [] (drop (length sep - 1) cs)
      else split_from sep (acc @ [c]) cs)"

definition py_split :: "string \<Rightarrow> string \<Rightarrow> string list" where
  "py_split s sep = split_from sep [] s"

text \<open>\<open>sep.join(xs)\<close>.\<close>

fun py_join :: "string \<Rightarrow> string list \<Rightarrow> string" where
  "py_join sep [] = []"
| "py_join sep [x] = x"
| "py_join sep (x # y # ys) = x @ sep @ py_join sep (y # ys)"

text \<open>
  \<open>os.path.join\<close> (POSIX): a component that starts with the separator replaces the
  path so far; otherwise it is appended, after a separator unless the path so far is
  empty or ends with one.
\<close>

definition join_step :: "string \<Rightarrow> string \<Rightarrow> string" where
  "join_step path b =
     (if startswith b ''/'' then b
      else if path = [] \<or> last path = CHR ''/'' then path @ b
      else path @ ''/'' @ b)"

definition path_join :: "string \<Rightarrow> string list \<Rightarrow> string" where
  "path_join a p = foldl join_step a p"

subsection \<open>Values, exceptions and the world outside the program\<close>

datatype exn =
  IndexError | KeyError | TypeError | ValueError | OSError | ParserError
  | IntegrityError | OperationalError

text \<open>What \<open>dateutil\<close>'s parser returns; the program only stores it.\<close>

datatype datetime = Datetime (year: int) (month: int) (day: int)

text \<open>The Python values that occur in a row handed to the store.\<close>

datatype val = VNone | VInt int | VStr string | VDate datetime

text \<open>Truth value of a value in a condition (\<open>if value\<close>).\<close>

fun truthy :: "val \<Rightarrow> bool" where
  "truthy VNone = False"
| "truthy (VInt n) = (n \<noteq> 0)"
| "truthy (VStr s) = (s \<noteq> [])"
| "truthy (VDate d) = True"

text \<open>
  One element of the \<open>body_text\<close> array of a body file: an object with a \<open>text\<close> string,
  or anything else (reading its text raises).
\<close>

datatype block = TextBlock string | BadBlock

text \<open>A table schema: the ordered dictionary from column name to declared type.\<close>

type_synonym table = "(string \<times> string) list"

definition ARTICLES :: table where
  "ARTICLES =
     [(''Id'', ''TEXT PRIMARY KEY''), (''Source'', ''TEXT''), (''Published'', ''DATETIME''),
      (''Publication'', ''TEXT''), (''Authors'', ''TEXT''), (''Title'', ''TEXT''),
      (''Tags'', ''TEXT''), (''Reference'', ''TEXT'')]"

definition SECTIONS :: table where
  "SECTIONS =
     [(''Id'', ''INTEGER PRIMARY KEY''), (''Article'', ''TEXT''), (''Text'', ''TEXT''),
      (''Tags'', ''TEXT'')]"

text \<open>The store: the rows of the two tables, in the order of their insertion.\<close>

record db =
  articles :: "val list list"
  sections :: "val list list"

text \<open>
  The library calls of the program.
  \<^item> \<open>sha1_hexdigest t\<close>: \<open>hashlib.sha1(t.encode("utf-8")).hexdigest()\<close>.
  \<^item> \<open>parser_parse\<close>: \<open>dateutil.parser.parse\<close>, which raises on text it cannot read.
  \<^item> \<open>sent_tokenize\<close>: the sentence splitter of \<open>nltk\<close>, which returns the sentences of
    every text.
  \<^item> \<open>load_body path\<close>: opening the file at \<open>path\<close>, \<open>json.load\<close> and the lookup of
    \<open>body_text\<close>; \<open>Inl\<close> when the file is missing, unreadable or not of that shape.
  \<^item> \<open>int_str\<close>: \<open>int(s)\<close> on a string.
  \<^item> \<open>db_rejects name row\<close>: the store raises on this insert for a reason other than
    the primary key (a text it cannot encode, a full disk).
\<close>

record world =
  sha1_hexdigest :: "string \<Rightarrow> string"
  parser_parse :: "string \<Rightarrow> exn + datetime"
  sent_tokenize :: "string \<Rightarrow> string list"
  load_body :: "string \<Rightarrow> exn + block list"
  int_str :: "string \<Rightarrow> exn + int"
  db_rejects :: "string \<Rightarrow> val list \<Rightarrow> bool"

text \<open>
  One row of the metadata table, as \<open>csv.DictReader\<close> yields it: the header names these
  columns and every line has a string for each of them.
\<close>

record row =
  sha :: string
  title :: string
  publish_time :: string
  source_x :: string
  journal :: string
  authors :: string
  doi :: string
  full_text_file :: string

text \<open>\<open>int(value)\<close>: an integer is itself, a string is parsed, anything else raises.\<close>

fun py_int :: "world \<Rightarrow> val \<Rightarrow> exn + int" where
  "py_int w (VInt n) = Inr n"
| "py_int w (VStr s) = int_str w s"
| "py_int w VNone = Inl TypeError"
| "py_int w (VDate d) = Inl TypeError"

text \<open>
  \<open>db.execute\<close> of the insert statement for the table \<open>name\<close>. Both tables declare their
  first column the primary key: a row whose key is already in the table raises, as does
  a table the store does not have. Otherwise the row is appended. (The program always
  supplies the key: a string for an article, an integer for a section.)
\<close>

definition table_insert :: "world \<Rightarrow> string \<Rightarrow> val list list \<Rightarrow> val list \<Rightarrow> exn + val list list" where
  "table_insert w name rows vs =
     (if db_rejects w name vs then Inl OperationalError
      else if vs \<noteq> [] \<and> hd vs \<in> set (map hd rows) then Inl IntegrityError
      else Inr (rows @ [vs]))"

definition db_execute :: "world \<Rightarrow> db \<Rightarrow> string \<Rightarrow> val list \<Rightarrow> exn + db" where
  "db_execute w d name vs =
     (if name = ''articles'' then
        (case table_insert w name (articles d) vs of
           Inl e \<Rightarrow> Inl e | Inr rows \<Rightarrow> Inr (d\<lparr>articles := rows\<rparr>))
      else if name = ''sections'' then
        (case table_insert w name (sections d) vs of
           Inl e \<Rightarrow> Inl e | Inr rows \<Rightarrow> Inr (d\<lparr>sections := rows\<rparr>))
      else Inl OperationalError)"

subsection \<open>The program\<close>

text \<open>\<open>Etl.init\<close>: a new store with the two tables, both empty.\<close>

definition init :: db where
  "init = \<lparr>articles = [], sections = []\<rparr>"

text \<open>
  \<open>Etl.values\<close>: the loop over \<open>enumerate(columns)\<close>, with \<open>x\<close> the index and \<open>vals\<close>
  the list built so far. \<open>row[x]\<close> raises beyond the end of the row and \<open>table[column]\<close>
  on a column the schema does not have.
\<close>

fun values_loop :: "world \<Rightarrow> table \<Rightarrow> val list \<Rightarrow> nat \<Rightarrow> string list \<Rightarrow> val list \<Rightarrow> exn + val list" where
  "values_loop w tbl r x [] vals = Inr vals"
| "values_loop w tbl r x (column # columns) vals =
     (if length r \<le> x then Inl IndexError
      else
        let v = r ! x in
        case map_of tbl column of
          None \<Rightarrow> Inl KeyError
        | Some ctype \<Rightarrow>
            if startswith ctype ''INTEGER'' then
              (if truthy v then
                 (case py_int w v of
                    Inl e \<Rightarrow> Inl e
                  | Inr n \<Rightarrow> values_loop w tbl r (x + 1) columns (vals @ [VInt n]))
               else values_loop w tbl r (x + 1) columns (vals @ [VInt 0]))
            else if ctype = ''BOOLEAN'' then
              values_loop w tbl r (x + 1) columns
                (vals @ [VInt (if v = VStr ''TRUE'' then 1 else 0)])
            else values_loop w tbl r (x + 1) columns (vals @ [v]))"

definition "values" :: "world \<Rightarrow> table \<Rightarrow> val list \<Rightarrow> string list \<Rightarrow> exn + val list" where
  "values w tbl r columns = values_loop w tbl r 0 columns []"

text \<open>
  \<open>Etl.insert\<close> (\<open>insert\<close> itself is the insertion into a set in HOL): the values are
  converted and the statement executed inside one \<open>try\<close>; on any exception the row is
  reported and the store is left as it was.
\<close>

definition insert_row :: "world \<Rightarrow> db \<Rightarrow> table \<Rightarrow> string \<Rightarrow> val list \<Rightarrow> db" where
  "insert_row w d tbl name r =
     (let columns = map fst tbl in
      case values w tbl r columns of
        Inl e \<Rightarrow> d
      | Inr vs \<Rightarrow> (case db_execute w d name vs of Inl e \<Rightarrow> d | Inr d' \<Rightarrow> d'))"

text \<open>
  \<open>Etl.getIds\<close>: the result (\<open>None\<close> for a rejected duplicate) and the set of generated
  ids after the call.
\<close>

definition getIds :: "world \<Rightarrow> row \<Rightarrow> string set \<Rightarrow> string list option \<times> string set" where
  "getIds w r ids =
     (let uids = (if sha r \<noteq> [] then Some (py_split (sha r) ''; '') else None) in
      if uids = None \<or> uids = Some [] then
        (let uid = sha1_hexdigest w (title r) in
         if uid \<in> ids then (None, ids)
         else (Some [uid], insert uid ids))
      else (uids, ids))"

text \<open>
  \<open>Etl.getDate\<close>: the bare \<open>except\<close> turns every exception of the parser into \<open>None\<close>.
\<close>

definition getDate :: "world \<Rightarrow> row \<Rightarrow> datetime option" where
  "getDate w r =
     (let date = publish_time r in
      if date \<noteq> [] then
        (let date' = (if isdigit date \<and> length date = 4 then date @ ''-01-01'' else date) in
         case parser_parse w date' of
           Inr d \<Rightarrow> Some d
         | Inl e \<Rightarrow> None)
      else None)"

text \<open>
  \<open>Etl.getTags\<close>: its list \<open>keywords\<close>, and the loop over the sections with \<open>tags\<close> the
  variable it assigns.
\<close>

definition getTags_keywords :: "string list" where
  "getTags_keywords =
     [''2019-ncov'', ''2019 novel coronavirus'', ''coronavirus 2019'',
      ''coronavirus disease 19'', ''covid-19'', ''covid 19'', ''ncov-2019'',
      ''sars-cov-2'', ''wuhan coronavirus'', ''wuhan pneumonia'', ''wuhan virus'']"

fun getTags_loop :: "string option \<Rightarrow> string list \<Rightarrow> string option" where
  "getTags_loop tags [] = tags"
| "getTags_loop tags (text # rest) =
     getTags_loop
       (if list_ex (\<lambda>x. py_in x (lower text)) getTags_keywords then Some ''COVID-19'' else tags)
       rest"

definition getTags :: "string list \<Rightarrow> string option" where
  "getTags secs = getTags_loop None secs"

text \<open>\<open>Etl.getReference\<close>.\<close>

definition getReference :: "row \<Rightarrow> string option" where
  "getReference r = (if doi r \<noteq> [] then Some (''https://doi.org/'' @ doi r) else None)"

text \<open>
  \<open>Etl.read\<close>; its variable \<open>subset\<close> is \<open>subs\<close> here. The inner loop runs over the blocks
  of one file inside the \<open>try\<close>: a block whose text cannot be read raises, which ends the
  work on this file and keeps the sentences already appended to \<open>secs\<close>.
\<close>

definition marker :: string where
  "marker = ''COVID-19 resource centre remains active''"

fun read_blocks :: "world \<Rightarrow> string list \<Rightarrow> block list \<Rightarrow> string list" where
  "read_blocks w secs [] = secs"
| "read_blocks w secs (BadBlock # rest) = secs"
| "read_blocks w secs (TextBlock t # rest) =
     read_blocks w (if \<not> py_in marker t then secs @ sent_tokenize w t else secs) rest"

definition article_path :: "string \<Rightarrow> string \<Rightarrow> string \<Rightarrow> string" where
  "article_path directory subs uid = path_join directory [subs, subs, uid @ ''.json'']"

fun read_files :: "world \<Rightarrow> string \<Rightarrow> string \<Rightarrow> string list \<Rightarrow> string list \<Rightarrow> string list" where
  "read_files w directory subs secs [] = secs"
| "read_files w directory subs secs (uid # uids) =
     read_files w directory subs
       (case load_body w (article_path directory subs uid) of
          Inl e \<Rightarrow> secs
        | Inr blocks \<Rightarrow> read_blocks w secs blocks)
       uids"

definition read :: "world \<Rightarrow> string \<Rightarrow> row \<Rightarrow> string list" where
  "read w directory r =
     (let uids = (if sha r \<noteq> [] then Some (py_split (sha r) ''; '') else None);
          subs = full_text_file r
      in case uids of
           Some (u # us) \<Rightarrow>
             if subs \<noteq> [] then read_files w directory subs [] (u # us) else []
         | _ \<Rightarrow> [])"

text \<open>The state of \<open>Etl.run\<close>: the store, the two counters and the generated ids.\<close>

record state =
  store :: db
  aindex :: int
  sindex :: int
  ids :: "string set"

definition opt_str :: "string option \<Rightarrow> val" where
  "opt_str t = (case t of None \<Rightarrow> VNone | Some s \<Rightarrow> VStr s)"

definition opt_date :: "datetime option \<Rightarrow> val" where
  "opt_date t = (case t of None \<Rightarrow> VNone | Some d \<Rightarrow> VDate d)"

text \<open>The loop over the sections of one article: the store and \<open>sindex\<close> after it.\<close>

fun insert_sections :: "world \<Rightarrow> db \<Rightarrow> int \<Rightarrow> string \<Rightarrow> string option \<Rightarrow> string list \<Rightarrow> db \<times> int" where
  "insert_sections w d si uid tags [] = (d, si)"
| "insert_sections w d si uid tags (text # rest) =
     insert_sections w
       (insert_row w d SECTIONS ''sections'' [VInt si, VStr uid, VStr text, opt_str tags])
       (si + 1) uid tags rest"

text \<open>The body of the loop over the rows of the metadata table.\<close>

definition run_row :: "world \<Rightarrow> string \<Rightarrow> row \<Rightarrow> state \<Rightarrow> state" where
  "run_row w directory r st =
     (case getIds w r (ids st) of
        (Some (uid0 # us), ids') \<Rightarrow>
          (let date = getDate w r;
               secs = title r # read w directory r;
               tags = getTags secs;
               article = [VStr uid0, VStr (source_x r), opt_date date, VStr (journal r),
                          VStr (authors r), VStr (title r), opt_str tags,
                          opt_str (getReference r)];
               d1 = insert_row w (store st) ARTICLES ''articles'' article;
               (d2, si) = insert_sections w d1 (sindex st) uid0 tags secs
           in \<lparr>store = d2, aindex = aindex st + 1, sindex = si, ids = ids'\<rparr>)
      | (_, ids') \<Rightarrow> st\<lparr>ids := ids'\<rparr>)"

fun run_rows :: "world \<Rightarrow> string \<Rightarrow> row list \<Rightarrow> state \<Rightarrow> state" where
  "run_rows w directory [] st = st"
| "run_rows w directory (r # rs) st = run_rows w directory rs (run_row w directory r st)"

text \<open>
  \<open>Etl.run\<close> on the rows of \<open>metadata.csv\<close>: the state after the last row; the store it
  holds is what the final commit writes.
\<close>

definition run :: "world \<Rightarrow> string \<Rightarrow> row list \<Rightarrow> state" where
  "run w directory rs =
     run_rows w directory rs \<lparr>store = init, aindex = 0, sindex = 0, ids = {}\<rparr>"

subsection \<open>Notions of the specification\<close>

text \<open>
  A fragment contains a keyword case-insensitively: some substring of the fragment equals
  the keyword up to the case of its letters.
\<close>

definition contains_ci :: "string \<Rightarrow> string \<Rightarrow> bool" where
  "contains_ci text k = (\<exists>u. sublist u text \<and> lower u = lower k)"

text \<open>A string of exactly four digits (0 to 9).\<close>

definition ascii_digit :: "char \<Rightarrow> bool" where
  "ascii_digit c = (c \<in> set ''0123456789'')"

definition four_digits :: "string \<Rightarrow> bool" where
  "four_digits s = (length s = 4 \<and> list_all ascii_digit s)"

text \<open>
  The coercion of one value by the declared type of its column, in the words of the
  specification: an integer column (its declared type begins with \<open>INTEGER\<close>, as in
  \<open>INTEGER PRIMARY KEY\<close>) parses the value, with the empty string and null giving 0; a
  boolean column (its declared type is \<open>BOOLEAN\<close>) gives true (stored as 1) for the
  literal \<open>TRUE\<close> and false (stored as 0) for everything else; any other column keeps
  the value.
\<close>

definition coerce :: "world \<Rightarrow> string \<Rightarrow> val \<Rightarrow> exn + val" where
  "coerce w ctype v =
     (if startswith ctype ''INTEGER'' then
        (if v = VNone \<or> v = VStr [] then Inr (VInt 0)
         else (case py_int w v of Inl e \<Rightarrow> Inl e | Inr n \<Rightarrow> Inr (VInt n)))
      else if ctype = ''BOOLEAN'' then Inr (VInt (if v = VStr ''TRUE'' then 1 else 0))
      else Inr v)"

subsection \<open>Notions for the run\<close>

text \<open>
  What \<open>run\<close> computes for a row that it does not skip: the identifier \<open>uids[0]\<close>, the
  tags of the title and body sections, and the tuples it hands to \<open>insert\<close>.
\<close>

definition canonical_id :: "world \<Rightarrow> row \<Rightarrow> string" where
  "canonical_id w r =
     (if sha r \<noteq> [] then hd (py_split (sha r) ''; '') else sha1_hexdigest w (title r))"

definition row_tags :: "world \<Rightarrow> string \<Rightarrow> row \<Rightarrow> string option" where
  "row_tags w directory r = getTags (title r # read w directory r)"

definition article_tuple :: "world \<Rightarrow> string \<Rightarrow> row \<Rightarrow> val list" where
  "article_tuple w directory r =
     [VStr (canonical_id w r), VStr (source_x r), opt_date (getDate w r), VStr (journal r),
      VStr (authors r), VStr (title r), opt_str (row_tags w directory r),
      opt_str (getReference r)]"

definition section_tuple :: "world \<Rightarrow> string \<Rightarrow> row \<Rightarrow> int \<Rightarrow> string \<Rightarrow> val list" where
  "section_tuple w directory r i t =
     [VInt i, VStr (canonical_id w r), VStr t, opt_str (row_tags w directory r)]"

text \<open>
  The section tuples \<open>run\<close> hands to \<open>insert\<close>, in order: for every row it does not skip,
  one tuple per fragment, numbered from the value of \<open>sindex\<close> on.
\<close>

fun numbered :: "int \<Rightarrow> string list \<Rightarrow> (int \<times> string) list" where
  "numbered si [] = []"
| "numbered si (t # ts) = (si, t) # numbered (si + 1) ts"

definition row_sections :: "world \<Rightarrow> string \<Rightarrow> row \<Rightarrow> int \<Rightarrow> val list list" where
  "row_sections w directory r si =
     map (\<lambda>(i, t). section_tuple w directory r i t) (numbered si (title r # read w directory r))"

fun handed_from :: "world \<Rightarrow> string \<Rightarrow> row list \<Rightarrow> state \<Rightarrow> val list list" where
  "handed_from w directory [] st = []"
| "handed_from w directory (r # rs) st =
     (if sha r = [] \<and> sha1_hexdigest w (title r) \<in> ids st then []
      else row_sections w directory r (sindex st))
     @ handed_from w directory rs (run_row w directory r st)"

definition handed_sections :: "world \<Rightarrow> string \<Rightarrow> row list \<Rightarrow> val list list" where
  "handed_sections w directory rs =
     handed_from w directory rs \<lparr>store = init, aindex = 0, sindex = 0, ids = {}\<rparr>"

text \<open>
  The section ids of a store are contiguous from 0: they are 0, 1, 2, ... in this order.
\<close>

definition contiguous_ids :: "val list \<Rightarrow> bool" where
  "contiguous_ids vs = (vs = map VInt [0..int (length vs) - 1])"

text \<open>
  Two invariants of the run, on the store and the counter \<open>sindex\<close>: the section ids
  increase strictly and lie below the counter; the section ids are exactly the integers
  below the counter.
\<close>

definition ids_below :: "db \<Rightarrow> int \<Rightarrow> bool" where
  "ids_below d si =
     (0 \<le> si \<and> (\<exists>ks. map hd (sections d) = map VInt ks \<and> sorted_wrt (<) ks
                        \<and> (\<forall>k\<in>set ks. 0 \<le> k \<and> k < si)))"

definition ids_contiguous :: "db \<Rightarrow> int \<Rightarrow> bool" where
  "ids_contiguous d si = (0 \<le> si \<and> map hd (sections d) = map VInt [0..si - 1])"

subsection \<open>A world and rows for the examples\<close>

text \<open>
  The digests are those of SHA-1 for the two titles the examples use (any other title
  gets a stand-in); the parser reads one date; every non-empty text is one sentence; one
  body file exists; the store raises on no insert.
\<close>

definition demo_world :: world where
  "demo_world =
     \<lparr>sha1_hexdigest = (\<lambda>t. if t = ''T'' then ''c2c53d66948214258a26ca9ca845d7ac0c17f8e7''
                            else if t = ''Same title'' then ''d74bc42c11e3780750f07a32d1c239f5ba82b072''
                            else ''sha1 of '' @ t),
      parser_parse = (\<lambda>s. if s = ''2020-01-01'' then Inr (Datetime 2020 1 1) else Inl ParserError),
      sent_tokenize = (\<lambda>t. if t = [] then [] else [t]),
      load_body = (\<lambda>p. if p = ''/data/S/S/abc.json'' then Inr [TextBlock ''Hello world.'']
                       else Inl OSError),
      int_str = (\<lambda>s. if s = ''42'' then Inr 42 else Inl ValueError),
      db_rejects = (\<lambda>name vs. False)\<rparr>"

definition demo_row :: row where
  "demo_row =
     \<lparr>sha = ''abc'', title = ''T'', publish_time = ''2020'', source_x = ''PMC'',
      journal = ''J'', authors = ''A'', doi = [], full_text_file = ''S''\<rparr>"

definition demo_table :: table where
  "demo_table =
     [(''Id'', ''INTEGER PRIMARY KEY''), (''Open'', ''BOOLEAN''), (''Pages'', ''INTEGER''),
      (''Closed'', ''BOOLEAN''), (''Title'', ''TEXT''), (''Published'', ''DATETIME'')]"

text \<open>A row without \<open>sha\<close> and without a body file.\<close>

definition untitled_row :: row where
  "untitled_row =
     \<lparr>sha = [], title = ''Same title'', publish_time = [], source_x = ''PMC'',
      journal = ''J'', authors = ''A'', doi = [], full_text_file = []\<rparr>"

text \<open>
  A world whose store raises on the insert of the section with id 1 (as \<open>sqlite3\<close> does
  on a text with a lone surrogate, or on a full disk) and accepts every other insert.
\<close>

definition gap_world :: world where
  "gap_world = demo_world\<lparr>db_rejects := (\<lambda>name vs. name = ''sections'' \<and> hd vs = VInt 1)\<rparr>"

text \<open>A row with two identifiers in \<open>sha\<close>.\<close>

definition two_ids_row :: row where
  "two_ids_row = demo_row\<lparr>sha := ''abc; def''\<rparr>"

text \<open>A row whose title holds a keyword.\<close>

definition covid_row :: row where
  "covid_row = demo_row\<lparr>title := ''COVID-19 outbreak report''\<rparr>"

text \<open>
  Four characters that \<open>str.isdigit\<close> accepts and that are not four digits 0 to 9: the
  third is the superscript one, U+00B9.
\<close>

definition superscript_year :: string where
  "superscript_year = [CHR ''2'', CHR ''0'', CHR 0xB9, CHR ''9'']"

section \<open>Properties\<close>

subsection \<open>Strings\<close>

lemma py_in_sublist: "py_in x s \<longleftrightarrow> sublist x s"
  by (induction s) (auto simp: sublist_Cons_right)

lemma split_from_nonempty: "split_from sep acc s \<noteq> []"
  by (induction sep acc s rule: split_from.induct) auto

lemma py_split_nonempty: "py_split s sep \<noteq> []"
  by (simp add: py_split_def split_from_nonempty)

subsection \<open>The tagger\<close>

lemma lower_keywords_all: "\<forall>k\<in>set getTags_keywords. lower k = k"
  by (simp add: getTags_keywords_def lower_def lower_char_def)

lemma lower_keywords: "k \<in> set getTags_keywords \<Longrightarrow> lower k = k"
  using lower_keywords_all by blast

lemma contains_ci_lower: "contains_ci text k \<longleftrightarrow> sublist (lower k) (lower text)"
proof
  assume "contains_ci text k"
  then obtain u where u: "sublist u text" "lower u = lower k"
    by (auto simp: contains_ci_def)
  from u(1) have "sublist (map lower_char u) (map lower_char text)"
    by (rule map_mono_sublist)
  with u(2) show "sublist (lower k) (lower text)"
    by (simp add: lower_def)
next
  assume "sublist (lower k) (lower text)"
  then have "sublist (map lower_char k) (map lower_char text)"
    by (simp add: lower_def)
  then obtain u where "sublist u text" "map lower_char k = map lower_char u"
    using sublist_map_rightE by blast
  then show "contains_ci text k"
    by (auto simp: contains_ci_def lower_def)
qed

lemma keyword_hit:
  "list_ex (\<lambda>x. py_in x (lower text)) getTags_keywords \<longleftrightarrow>
   (\<exists>k\<in>set getTags_keywords. contains_ci text k)"
  by (auto simp: list_ex_iff py_in_sublist contains_ci_lower lower_keywords)

lemma getTags_loop_eq:
  "getTags_loop tags secs =
   (if \<exists>text\<in>set secs. \<exists>k\<in>set getTags_keywords. contains_ci text k
    then Some ''COVID-19'' else tags)"
  by (induction secs arbitrary: tags) (auto simp: keyword_hit)

text \<open>
  C4. \<open>getTags\<close> returns the label \<open>COVID-19\<close> if and only if some fragment contains some
  keyword of the fixed list case-insensitively, and \<open>None\<close> otherwise. The fragments
  \<open>["Study of flu"]\<close> give \<open>None\<close>, the fragments \<open>["COVID-19 outbreak report"]\<close> the label.
\<close>

theorem getTags_iff:
  "getTags secs =
     (if \<exists>text\<in>set secs. \<exists>k\<in>set getTags_keywords. contains_ci text k
      then Some ''COVID-19'' else None)
   \<and> getTags [''Study of flu''] = None
   \<and> getTags [''COVID-19 outbreak report''] = Some ''COVID-19''"
proof -
  have "getTags [''Study of flu''] = None" by code_simp
  moreover have "getTags [''COVID-19 outbreak report''] = Some ''COVID-19''" by code_simp
  ultimately show ?thesis by (simp add: getTags_def getTags_loop_eq)
qed

subsection \<open>The identifier resolver\<close>

text \<open>
  C10. Whatever the row and the set of generated ids, \<open>getIds\<close> returns \<open>None\<close> (which it
  does only for a row without \<open>sha\<close> whose title digest was generated before, leaving the
  set as it was) or a list with a first element; it never returns the empty list, so
  \<open>uids[0]\<close> in \<open>run\<close> is in bounds.
\<close>

theorem getIds_never_empty:
  "(fst (getIds w r seen) = None \<and> snd (getIds w r seen) = seen
      \<and> sha r = [] \<and> sha1_hexdigest w (title r) \<in> seen)
   \<or> (\<exists>u us. fst (getIds w r seen) = Some (u # us))"
  using py_split_nonempty [of "sha r" "''; ''"]
  by (cases "py_split (sha r) ''; ''") (auto simp: getIds_def Let_def)

subsection \<open>The date parser\<close>

lemma digit_char_ascii: "ascii_digit c \<Longrightarrow> digit_char c"
  by (auto simp: digit_char_def ascii_digit_def)

lemma four_digits_isdigit:
  assumes "four_digits s"
  shows "isdigit s \<and> length s = 4"
proof -
  from assms have l: "length s = 4" and d: "list_all ascii_digit s"
    by (simp_all add: four_digits_def)
  from d have "list_all digit_char s"
    unfolding list_all_iff using digit_char_ascii by blast
  moreover from l have "s \<noteq> []" by auto
  ultimately show ?thesis using l by (simp add: isdigit_def)
qed

lemma getDate_four_digits:
  assumes "four_digits (publish_time r)"
  shows "getDate w r = (case parser_parse w (publish_time r @ ''-01-01'') of
                         Inr d \<Rightarrow> Some d | Inl e \<Rightarrow> None)"
proof -
  from assms have i: "isdigit (publish_time r)" and l: "length (publish_time r) = 4"
    using four_digits_isdigit by blast+
  from l have "publish_time r \<noteq> []" by auto
  with i l show ?thesis by (simp add: getDate_def Let_def)
qed

lemma getDate_other:
  "\<not> (isdigit (publish_time r) \<and> length (publish_time r) = 4) \<Longrightarrow> publish_time r \<noteq> [] \<Longrightarrow>
     getDate w r = (case parser_parse w (publish_time r) of Inr d \<Rightarrow> Some d | Inl e \<Rightarrow> None)"
  by (auto simp: getDate_def Let_def)

lemma getDate_2020:
  assumes "publish_time r = ''2020''" "parser_parse w ''2020-01-01'' = Inr (Datetime 2020 1 1)"
  shows "getDate w r = Some (Datetime 2020 1 1)"
proof -
  have "four_digits ''2020''" by (simp add: four_digits_def ascii_digit_def)
  with assms(1) have "four_digits (publish_time r)" by simp
  from getDate_four_digits [OF this, of w] assms show ?thesis by simp
qed

lemma getDate_not_a_date:
  "publish_time r = ''not-a-date'' \<Longrightarrow> parser_parse w ''not-a-date'' = Inl e \<Longrightarrow> getDate w r = None"
  by (auto simp: getDate_def Let_def isdigit_def digit_char_def)

lemma getDate_anchored:
  assumes "isdigit (publish_time r)" "length (publish_time r) = 4"
  shows "getDate w r = (case parser_parse w (publish_time r @ ''-01-01'') of
                         Inr d \<Rightarrow> Some d | Inl e \<Rightarrow> None)"
proof -
  from assms(2) have "publish_time r \<noteq> []" by auto
  with assms show ?thesis by (simp add: getDate_def Let_def)
qed

text \<open>
  C5. \<open>getDate\<close> returns a value for every row, \<open>None\<close> standing for the null date. An
  empty \<open>publish_time\<close> gives \<open>None\<close>. A string of four characters that \<open>str.isdigit\<close>
  accepts, in particular every string of exactly four digits 0 to 9, is handed to the
  parser with \<open>-01-01\<close> appended; every other non-empty string is handed to it as it is.
  The result is a date only if the parser returned this date on the string handed to it;
  whenever the parser raises on that string the result is \<open>None\<close>. With a parser that
  reads \<open>2020-01-01\<close> as January 1, 2020, the string \<open>2020\<close> gives that date; with a
  parser that raises on \<open>not-a-date\<close>, that string gives \<open>None\<close>.
\<close>

theorem getDate_total:
  "(publish_time r = [] \<longrightarrow> getDate w r = None)
   \<and> (isdigit (publish_time r) \<and> length (publish_time r) = 4 \<longrightarrow>
        getDate w r = (case parser_parse w (publish_time r @ ''-01-01'') of
                         Inr d \<Rightarrow> Some d | Inl e \<Rightarrow> None))
   \<and> (four_digits (publish_time r) \<longrightarrow>
        isdigit (publish_time r) \<and> length (publish_time r) = 4
        \<and> getDate w r = (case parser_parse w (publish_time r @ ''-01-01'') of
                         Inr d \<Rightarrow> Some d | Inl e \<Rightarrow> None))
   \<and> (\<not> (isdigit (publish_time r) \<and> length (publish_time r) = 4) \<and> publish_time r \<noteq> [] \<longrightarrow>
        getDate w r = (case parser_parse w (publish_time r) of
                         Inr d \<Rightarrow> Some d | Inl e \<Rightarrow> None))
   \<and> (getDate w r = Some d \<longrightarrow>
        publish_time r \<noteq> []
        \<and> parser_parse w (if isdigit (publish_time r) \<and> length (publish_time r) = 4
                           then publish_time r @ ''-01-01'' else publish_time r) = Inr d)
   \<and> (parser_parse w (if isdigit (publish_time r) \<and> length (publish_time r) = 4
                       then publish_time r @ ''-01-01'' else publish_time r) = Inl x \<longrightarrow>
        getDate w r = None)
   \<and> (publish_time r = ''2020'' \<and> parser_parse w ''2020-01-01'' = Inr (Datetime 2020 1 1) \<longrightarrow>
        getDate w r = Some (Datetime 2020 1 1))
   \<and> (publish_time r = ''not-a-date'' \<and> parser_parse w ''not-a-date'' = Inl x \<longrightarrow>
        getDate w r = None)"
proof (intro conjI impI)
  assume "publish_time r = []"
  then show "getDate w r = None" by (simp add: getDate_def)
next
  assume "isdigit (publish_time r) \<and> length (publish_time r) = 4"
  then show "getDate w r = (case parser_parse w (publish_time r @ ''-01-01'') of
                         Inr d \<Rightarrow> Some d | Inl e \<Rightarrow> None)"
    using getDate_anchored by blast
next
  assume "four_digits (publish_time r)"
  then show "isdigit (publish_time r)" using four_digits_isdigit by blast
next
  assume "four_digits (publish_time r)"
  then show "length (publish_time r) = 4" using four_digits_isdigit by blast
next
  assume "four_digits (publish_time r)"
  then show "getDate w r = (case parser_parse w (publish_time r @ ''-01-01'') of
                         Inr d \<Rightarrow> Some d | Inl e \<Rightarrow> None)"
    by (rule getDate_four_digits)
next
  assume "\<not> (isdigit (publish_time r) \<and> length (publish_time r) = 4) \<and> publish_time r \<noteq> []"
  then show "getDate w r = (case parser_parse w (publish_time r) of
                         Inr d \<Rightarrow> Some d | Inl e \<Rightarrow> None)"
    using getDate_other by blast
next
  assume "getDate w r = Some d"
  then show "publish_time r \<noteq> []" by (auto simp: getDate_def)
next
  assume some: "getDate w r = Some d"
  show "parser_parse w (if isdigit (publish_time r) \<and> length (publish_time r) = 4
                           then publish_time r @ ''-01-01'' else publish_time r) = Inr d"
  proof (cases "isdigit (publish_time r) \<and> length (publish_time r) = 4")
    case True
    have "parser_parse w (publish_time r @ ''-01-01'') = Inr d"
      using some getDate_anchored [of r w] True by (simp split: sum.splits)
    then show ?thesis by (simp only: if_P [OF True])
  next
    case False
    from some have "publish_time r \<noteq> []" by (auto simp: getDate_def)
    from getDate_other [OF False this, of w] some
    have "parser_parse w (publish_time r) = Inr d" by (simp split: sum.splits)
    then show ?thesis by (simp only: if_not_P [OF False])
  qed
next
  assume "parser_parse w (if isdigit (publish_time r) \<and> length (publish_time r) = 4
                       then publish_time r @ ''-01-01'' else publish_time r) = Inl x"
  then show "getDate w r = None"
    by (cases "publish_time r = []") (simp_all add: getDate_def Let_def)
next
  assume "publish_time r = ''2020'' \<and> parser_parse w ''2020-01-01'' = Inr (Datetime 2020 1 1)"
  then show "getDate w r = Some (Datetime 2020 1 1)"
    using getDate_2020 by blast
next
  assume "publish_time r = ''not-a-date'' \<and> parser_parse w ''not-a-date'' = Inl x"
  then show "getDate w r = None"
    using getDate_not_a_date by blast
qed

theorem getDate_total_witness:
  "getDate demo_world (demo_row\<lparr>publish_time := []\<rparr>) = None
   \<and> getDate demo_world demo_row = Some (Datetime 2020 1 1)
   \<and> getDate demo_world (demo_row\<lparr>publish_time := ''not-a-date''\<rparr>) = None
   \<and> getDate demo_world (demo_row\<lparr>publish_time := ''1 Jan''\<rparr>) = None
   \<and> getDate demo_world (demo_row\<lparr>publish_time := superscript_year\<rparr>) = None"
proof -
  have g: "\<not> isdigit ''1 Jan''" by (simp add: isdigit_def digit_char_def)
  have s: "isdigit superscript_year \<and> length superscript_year = 4"
    by (simp add: superscript_year_def isdigit_def digit_char_def)
  have p: "parser_parse demo_world (superscript_year @ ''-01-01'') = Inl ParserError"
    by (simp add: superscript_year_def demo_world_def)
  note t = getDate_total [where w = demo_world and d = "Datetime 2020 1 1" and x = ParserError]
  have 1: "getDate demo_world (demo_row\<lparr>publish_time := []\<rparr>) = None"
    using t [where r = "demo_row\<lparr>publish_time := []\<rparr>", THEN conjunct1] by simp
  have 2: "getDate demo_world demo_row = Some (Datetime 2020 1 1)"
    using t [where r = demo_row]
    by (simp add: demo_row_def demo_world_def)
  have 3: "getDate demo_world (demo_row\<lparr>publish_time := ''not-a-date''\<rparr>) = None"
    using t [where r = "demo_row\<lparr>publish_time := ''not-a-date''\<rparr>"]
    by (simp add: demo_world_def)
  have 4: "getDate demo_world (demo_row\<lparr>publish_time := ''1 Jan''\<rparr>) = None"
    using t [where r = "demo_row\<lparr>publish_time := ''1 Jan''\<rparr>",
        THEN conjunct2, THEN conjunct2, THEN conjunct2, THEN conjunct1] g
    by (simp add: demo_world_def)
  have 5: "getDate demo_world (demo_row\<lparr>publish_time := superscript_year\<rparr>) = None"
    using t [where r = "demo_row\<lparr>publish_time := superscript_year\<rparr>",
        THEN conjunct2, THEN conjunct1] s p
    by simp
  from 1 2 3 4 5 show ?thesis by (intro conjI)
qed

subsection \<open>The row writer\<close>

lemma values_loop_step:
  assumes "x < length r" "map_of tbl c = Some ty"
  shows "values_loop w tbl r x (c # cs) acc =
         (case coerce w ty (r ! x) of
            Inl e \<Rightarrow> Inl e
          | Inr v \<Rightarrow> values_loop w tbl r (Suc x) cs (acc @ [v]))"
  using assms by (cases "r ! x") (auto simp: coerce_def Let_def split: sum.splits)

lemma values_loop_iff:
  assumes "length tys = length cs"
  shows "x + length cs \<le> length r \<Longrightarrow> (\<forall>j<length cs. map_of tbl (cs ! j) = Some (tys ! j)) \<Longrightarrow>
     values_loop w tbl r x cs acc = Inr vs \<longleftrightarrow>
     (\<exists>ws. vs = acc @ ws \<and> length ws = length cs \<and>
           (\<forall>j<length cs. coerce w (tys ! j) (r ! (x + j)) = Inr (ws ! j)))"
  using assms
proof (induction tys cs arbitrary: x acc rule: list_induct2)
  case Nil
  then show ?case by auto
next
  case (Cons ty tys c cs)
  have x: "x < length r" using Cons.prems(1) by simp
  have c: "map_of tbl c = Some ty" using Cons.prems(2) by force
  have rest: "\<forall>j<length cs. map_of tbl (cs ! j) = Some (tys ! j)"
    using Cons.prems(2) by force
  have len: "Suc x + length cs \<le> length r" using Cons.prems(1) by simp
  note IH = Cons.IH [OF len rest]
  show ?case
  proof (cases "coerce w ty (r ! x)")
    case (Inl e)
    then show ?thesis
      using values_loop_step [OF x c, of w cs acc] by auto
  next
    case (Inr v)
    have "values_loop w tbl r x (c # cs) acc = Inr vs \<longleftrightarrow>
          values_loop w tbl r (Suc x) cs (acc @ [v]) = Inr vs"
      using values_loop_step [OF x c, of w cs acc] Inr by simp
    also have "\<dots> \<longleftrightarrow> (\<exists>ws. vs = (acc @ [v]) @ ws \<and> length ws = length cs \<and>
           (\<forall>j<length cs. coerce w (tys ! j) (r ! (Suc x + j)) = Inr (ws ! j)))"
      by (rule IH)
    also have "\<dots> \<longleftrightarrow> (\<exists>ws. vs = acc @ ws \<and> length ws = length (c # cs) \<and>
           (\<forall>j<length (c # cs). coerce w ((ty # tys) ! j) (r ! (x + j)) = Inr (ws ! j)))"
      (is "?L \<longleftrightarrow> ?R")
    proof
      assume ?L
      then obtain ws where ws: "vs = (acc @ [v]) @ ws" "length ws = length cs"
        "\<forall>j<length cs. coerce w (tys ! j) (r ! (Suc x + j)) = Inr (ws ! j)" by blast
      have "\<forall>j<length (c # cs). coerce w ((ty # tys) ! j) (r ! (x + j)) = Inr ((v # ws) ! j)"
        using ws(3) Inr by (auto simp: nth_Cons split: nat.splits)
      with ws(1,2) show ?R by (intro exI [of _ "v # ws"]) simp
    next
      assume ?R
      then obtain ws where ws: "vs = acc @ ws" "length ws = length (c # cs)"
        "\<forall>j<length (c # cs). coerce w ((ty # tys) ! j) (r ! (x + j)) = Inr (ws ! j)" by blast
      from ws(2) obtain v' ws' where vw: "ws = v' # ws'" by (cases ws) auto
      from ws(3) have "coerce w ty (r ! x) = Inr (ws ! 0)" by force
      with Inr vw have v': "v' = v" by simp
      have "\<forall>j<length cs. coerce w (tys ! j) (r ! (Suc x + j)) = Inr (ws' ! j)"
      proof (intro allI impI)
        fix j assume "j < length cs"
        then have "Suc j < length (c # cs)" by simp
        with ws(3) have "coerce w ((ty # tys) ! Suc j) (r ! (x + Suc j)) = Inr (ws ! Suc j)"
          by blast
        then show "coerce w (tys ! j) (r ! (Suc x + j)) = Inr (ws' ! j)"
          using vw by simp
      qed
      with ws(1,2) vw v' show ?L by (intro exI [of _ ws']) simp
    qed
    finally show ?thesis .
  qed
qed

text \<open>
  C8. For a schema (a dictionary, so its column names are distinct) and a row with a
  value for every column, \<open>values\<close> returns a list exactly when every value coerces by
  the declared type of its column, and the list then holds the coerced values in column
  order: integer columns hold the parsed integer, with 0 for an empty or null value;
  boolean columns hold 1 for the literal \<open>TRUE\<close> and 0 for anything else; all other
  columns hold the value unchanged.
\<close>

theorem values_coerces:
  assumes "distinct (map fst tbl)" "length tbl \<le> length r"
  shows "values w tbl r (map fst tbl) = Inr vs \<longleftrightarrow>
         (length vs = length tbl \<and>
          (\<forall>i<length tbl. coerce w (snd (tbl ! i)) (r ! i) = Inr (vs ! i)))"
proof -
  have m: "\<forall>j<length (map fst tbl). map_of tbl (map fst tbl ! j) = Some (map snd tbl ! j)"
    using assms(1) by (auto intro!: map_of_is_SomeI simp: in_set_conv_nth)
  have "values_loop w tbl r 0 (map fst tbl) [] = Inr vs \<longleftrightarrow>
     (\<exists>ws. vs = [] @ ws \<and> length ws = length (map fst tbl) \<and>
           (\<forall>j<length (map fst tbl). coerce w (map snd tbl ! j) (r ! (0 + j)) = Inr (ws ! j)))"
    using assms(2) m by (intro values_loop_iff) auto
  then show ?thesis by (auto simp: values_def)
qed

theorem values_coerces_witness:
  "values demo_world demo_table
     [VNone, VStr ''TRUE'', VStr ''42'', VStr ''true'', VStr ''T'', VDate (Datetime 2020 1 1)]
     (map fst demo_table)
   = Inr [VInt 0, VInt 1, VInt 42, VInt 0, VStr ''T'', VDate (Datetime 2020 1 1)]"
proof -
  let ?r = "[VNone, VStr ''TRUE'', VStr ''42'', VStr ''true'', VStr ''T'', VDate (Datetime 2020 1 1)]"
  let ?vs = "[VInt 0, VInt 1, VInt 42, VInt 0, VStr ''T'', VDate (Datetime 2020 1 1)]"
  have d: "distinct (map fst demo_table)" by (simp add: demo_table_def)
  have l: "length demo_table \<le> length ?r" by (simp add: demo_table_def)
  have n: "length demo_table = 6" by (simp add: demo_table_def)
  have c: "\<forall>i<length demo_table. coerce demo_world (snd (demo_table ! i)) (?r ! i) = Inr (?vs ! i)"
    unfolding n
    by (simp add: demo_table_def demo_world_def coerce_def startswith_def
        eval_nat_numeral less_Suc_eq)
  show ?thesis
    using values_coerces [OF d l, of demo_world ?vs] c n by simp
qed

subsection \<open>The section extractor\<close>

lemma read_blocks_text:
  "read_blocks w secs (map TextBlock ts) =
     secs @ concat (map (sent_tokenize w) (filter (\<lambda>t. \<not> sublist marker t) ts))"
proof (induction ts arbitrary: secs)
  case Nil
  show ?case by simp
next
  case (Cons t ts)
  show ?case by (simp add: Cons.IH py_in_sublist)
qed

lemma read_blocks_acc: "read_blocks w secs bs = secs @ read_blocks w [] bs"
proof (induction bs arbitrary: secs)
  case Nil
  show ?case by simp
next
  case (Cons b bs)
  show ?case
  proof (cases b)
    case BadBlock
    then show ?thesis by simp
  next
    case (TextBlock t)
    show ?thesis
    proof (cases "py_in marker t")
      case True
      with TextBlock show ?thesis by (simp add: Cons.IH [of secs])
    next
      case False
      have "read_blocks w secs (b # bs) = read_blocks w (secs @ sent_tokenize w t) bs"
        using TextBlock False by simp
      also have "\<dots> = (secs @ sent_tokenize w t) @ read_blocks w [] bs"
        by (rule Cons.IH)
      also have "\<dots> = secs @ read_blocks w (sent_tokenize w t) bs"
        by (simp add: Cons.IH [of "sent_tokenize w t"])
      also have "\<dots> = secs @ read_blocks w [] (b # bs)"
        using TextBlock False by simp
      finally show ?thesis .
    qed
  qed
qed

text \<open>A block without a text ends the work on its file; the blocks before it count.\<close>

lemma read_blocks_bad:
  "read_blocks w secs (map TextBlock ts @ BadBlock # rest) = read_blocks w secs (map TextBlock ts)"
  by (induction ts arbitrary: secs) simp_all

lemma read_files_eq:
  "read_files w directory subs secs uids =
     secs @ concat (map (\<lambda>uid. case load_body w (article_path directory subs uid) of
                                Inl e \<Rightarrow> [] | Inr bs \<Rightarrow> read_blocks w [] bs) uids)"
proof (induction uids arbitrary: secs)
  case Nil
  then show ?case by simp
next
  case (Cons uid uids)
  show ?case
    by (cases "load_body w (article_path directory subs uid)")
       (simp_all add: Cons.IH read_blocks_acc [of w secs])
qed

lemma read_eq:
  "read w directory r =
     (if sha r \<noteq> [] \<and> full_text_file r \<noteq> [] then
        concat (map (\<lambda>uid. case load_body w (article_path directory (full_text_file r) uid) of
                             Inl e \<Rightarrow> [] | Inr bs \<Rightarrow> read_blocks w [] bs)
                    (py_split (sha r) ''; ''))
      else [])"
proof (cases "py_split (sha r) ''; ''")
  case Nil
  then show ?thesis using py_split_nonempty [of "sha r" "''; ''"] by simp
next
  case (Cons u us)
  then show ?thesis by (simp add: read_def read_files_eq Let_def)
qed

text \<open>
  C7. For a body file of the expected shape (every block has a text), the fragments read
  from it are the sentences of its blocks without the boilerplate marker, block by block
  in document order: a block whose text contains the marker contributes nothing, and the
  other blocks are split into sentences and included. \<open>read\<close> returns these fragments
  file by file, in the order of the identifiers of the row.
\<close>

theorem read_skips_marker:
  "read_blocks w [] (map TextBlock ts) =
     concat (map (sent_tokenize w) (filter (\<lambda>t. \<not> sublist marker t) ts))
   \<and> read w directory r =
     (if sha r \<noteq> [] \<and> full_text_file r \<noteq> [] then
        concat (map (\<lambda>uid. case load_body w (article_path directory (full_text_file r) uid) of
                             Inl e \<Rightarrow> [] | Inr bs \<Rightarrow> read_blocks w [] bs)
                    (py_split (sha r) ''; ''))
      else [])"
  using read_blocks_text [of w "[]" ts] read_eq [of w directory r] by simp

theorem read_skips_marker_example:
  "read_blocks demo_world []
     [TextBlock ''First block.'',
      TextBlock ''The COVID-19 resource centre remains active.'',
      TextBlock ''Third block.'']
   = [''First block.'', ''Third block.'']"
proof -
  have a: "\<not> py_in marker ''First block.''" by code_simp
  have b: "py_in marker ''The COVID-19 resource centre remains active.''" by code_simp
  have c: "\<not> py_in marker ''Third block.''" by code_simp
  show ?thesis
    using read_skips_marker
      [of demo_world "[''First block.'', ''The COVID-19 resource centre remains active.'',
                       ''Third block.'']"]
      a b c
    by (simp add: py_in_sublist demo_world_def)
qed

subsection \<open>Inserts under the two schemas\<close>

lemma values_SECTIONS:
  "values w SECTIONS [VInt i, a, t, g] (map fst SECTIONS) = Inr [VInt i, a, t, g]"
  by (simp add: values_def SECTIONS_def startswith_def Let_def)

lemma values_ARTICLES:
  "values w ARTICLES [a, b, c, d, e, f, g, h] (map fst ARTICLES) = Inr [a, b, c, d, e, f, g, h]"
  by (simp add: values_def ARTICLES_def startswith_def Let_def)

lemma insert_row_sections:
  "insert_row w d SECTIONS ''sections'' [VInt i, a, t, g] =
     (if db_rejects w ''sections'' [VInt i, a, t, g] \<or> VInt i \<in> set (map hd (sections d))
      then d else d\<lparr>sections := sections d @ [[VInt i, a, t, g]]\<rparr>)"
  unfolding insert_row_def Let_def values_SECTIONS
  by (simp add: db_execute_def table_insert_def)

lemma insert_row_articles:
  "insert_row w d ARTICLES ''articles'' [a, b, c, x, e, f, g, h] =
     (if db_rejects w ''articles'' [a, b, c, x, e, f, g, h] \<or> a \<in> set (map hd (articles d))
      then d else d\<lparr>articles := articles d @ [[a, b, c, x, e, f, g, h]]\<rparr>)"
  unfolding insert_row_def Let_def values_ARTICLES
  by (simp add: db_execute_def table_insert_def)

lemma insert_sections_articles:
  "articles (fst (insert_sections w d si uid tags secs)) = articles d"
  by (induction secs arbitrary: d si) (simp_all add: insert_row_sections)

lemma insert_sections_sindex:
  "snd (insert_sections w d si uid tags secs) = si + int (length secs)"
  by (induction secs arbitrary: d si) simp_all

lemma insert_row_articles_sections:
  "sections (insert_row w d ARTICLES ''articles'' (article_tuple w directory r)) = sections d"
  by (simp add: article_tuple_def insert_row_articles)

subsection \<open>Splitting and the resolver\<close>

lemma py_join_Cons: "ys \<noteq> [] \<Longrightarrow> py_join sep (x # ys) = x @ sep @ py_join sep ys"
  by (cases ys) simp_all

lemma join_split_from: "py_join sep (split_from sep acc s) = acc @ s"
proof (induction sep acc s rule: split_from.induct)
  case (1 sep acc)
  show ?case by simp
next
  case (2 sep acc c cs)
  show ?case
  proof (cases "sep \<noteq> [] \<and> prefix sep (c # cs)")
    case True
    then obtain rest where rest: "c # cs = sep @ rest" by (auto elim: prefixE)
    from True obtain x xs where sep: "sep = x # xs" by (cases sep) auto
    from rest sep have cs: "cs = xs @ rest" by simp
    have d: "drop (length sep - 1) cs = rest" by (simp add: sep cs)
    have "py_join sep (split_from sep acc (c # cs))
          = py_join sep (acc # split_from sep [] (drop (length sep - 1) cs))"
      using True by simp
    also have "\<dots> = acc @ sep @ py_join sep (split_from sep [] (drop (length sep - 1) cs))"
      by (rule py_join_Cons) (rule split_from_nonempty)
    also have "\<dots> = acc @ sep @ rest"
      using "2.IH"(1) [OF True] d by simp
    finally show ?thesis by (simp add: rest)
  next
    case False
    then have "py_join sep (split_from sep acc (c # cs)) = py_join sep (split_from sep (acc @ [c]) cs)"
      by auto
    also have "\<dots> = (acc @ [c]) @ cs" by (rule "2.IH"(2) [OF False])
    finally show ?thesis by simp
  qed
qed

lemma join_split: "py_join sep (py_split s sep) = s"
  by (simp add: py_split_def join_split_from)

lemma getIds_eq:
  "getIds w r seen =
     (if sha r \<noteq> [] then (Some (py_split (sha r) ''; ''), seen)
      else if sha1_hexdigest w (title r) \<in> seen then (None, seen)
      else (Some [sha1_hexdigest w (title r)], insert (sha1_hexdigest w (title r)) seen))"
  using py_split_nonempty [of "sha r" "''; ''"]
  by (simp add: getIds_def Let_def)

subsection \<open>One row of the run\<close>

lemma run_row_eq:
  "run_row w directory r st =
     (if sha r = [] \<and> sha1_hexdigest w (title r) \<in> ids st then st
      else
        \<lparr>store = fst (insert_sections w
                    (insert_row w (store st) ARTICLES ''articles'' (article_tuple w directory r))
                    (sindex st) (canonical_id w r) (row_tags w directory r)
                    (title r # read w directory r)),
         aindex = aindex st + 1,
         sindex = sindex st + 1 + int (length (read w directory r)),
         ids = (if sha r = [] then insert (sha1_hexdigest w (title r)) (ids st) else ids st)\<rparr>)"
proof (cases "sha r = []")
  case True
  then show ?thesis
    by (simp add: run_row_def getIds_eq Let_def canonical_id_def article_tuple_def row_tags_def
        insert_sections_sindex split_beta del: insert_sections.simps)
next
  case False
  obtain u us where u: "py_split (sha r) ''; '' = u # us"
    using py_split_nonempty [of "sha r" "''; ''"] by (cases "py_split (sha r) ''; ''") auto
  with False show ?thesis
    by (simp add: run_row_def getIds_eq Let_def canonical_id_def article_tuple_def row_tags_def
        insert_sections_sindex split_beta del: insert_sections.simps)
qed

lemma run_row_skip:
  "sha r = [] \<and> sha1_hexdigest w (title r) \<in> ids st \<Longrightarrow> run_row w directory r st = st"
  by (subst run_row_eq) (rule if_P)

lemma run_row_process:
  "\<not> (sha r = [] \<and> sha1_hexdigest w (title r) \<in> ids st) \<Longrightarrow>
   run_row w directory r st =
        \<lparr>store = fst (insert_sections w
                    (insert_row w (store st) ARTICLES ''articles'' (article_tuple w directory r))
                    (sindex st) (canonical_id w r) (row_tags w directory r)
                    (title r # read w directory r)),
         aindex = aindex st + 1,
         sindex = sindex st + 1 + int (length (read w directory r)),
         ids = (if sha r = [] then insert (sha1_hexdigest w (title r)) (ids st) else ids st)\<rparr>"
  by (subst run_row_eq) (rule if_not_P)

lemma run_rows_append:
  "run_rows w directory (xs @ ys) st = run_rows w directory ys (run_rows w directory xs st)"
  by (induction xs arbitrary: st) simp_all

lemma ids_run_row: "ids st \<subseteq> ids (run_row w directory r st)"
proof (cases "sha r = [] \<and> sha1_hexdigest w (title r) \<in> ids st")
  case True
  then show ?thesis by (simp only: run_row_skip)
next
  case False
  show ?thesis by (auto simp: run_row_process [OF False] simp del: insert_sections.simps)
qed

lemma ids_run_rows: "ids st \<subseteq> ids (run_rows w directory rs st)"
proof (induction rs arbitrary: st)
  case Nil
  show ?case by simp
next
  case (Cons r rs)
  have "ids st \<subseteq> ids (run_row w directory r st)" by (rule ids_run_row)
  also have "\<dots> \<subseteq> ids (run_rows w directory rs (run_row w directory r st))" by (rule Cons.IH)
  finally show ?case by simp
qed

lemma run_row_generates:
  assumes "sha r = []"
  shows "sha1_hexdigest w (title r) \<in> ids (run_row w directory r st)"
proof (cases "sha r = [] \<and> sha1_hexdigest w (title r) \<in> ids st")
  case True
  then show ?thesis by (simp only: run_row_skip)
next
  case False
  show ?thesis using assms by (simp add: run_row_process [OF False] del: insert_sections.simps)
qed

lemma duplicate_run_rows:
  assumes "sha r1 = []" "sha r2 = []" "title r1 = title r2"
  shows "run_rows w directory (pre @ r1 # mid @ r2 # post) st
       = run_rows w directory (pre @ r1 # mid @ post) st"
proof -
  let ?st1 = "run_rows w directory pre st"
  let ?st2 = "run_row w directory r1 ?st1"
  let ?st3 = "run_rows w directory mid ?st2"
  have "sha1_hexdigest w (title r1) \<in> ids ?st2" by (rule run_row_generates [OF assms(1)])
  with ids_run_rows [of ?st2 w directory mid] have "sha1_hexdigest w (title r2) \<in> ids ?st3"
    using assms(3) by auto
  with assms(2) have "run_row w directory r2 ?st3 = ?st3" by (simp only: run_row_skip)
  then show ?thesis by (simp add: run_rows_append)
qed

subsection \<open>The section ids\<close>

lemma ids_below_step:
  assumes "ids_below d si"
  shows "ids_below (insert_row w d SECTIONS ''sections'' [VInt si, a, t, g]) (si + 1)"
proof -
  from assms obtain ks where ks: "0 \<le> si" "map hd (sections d) = map VInt ks"
    "sorted_wrt (<) ks" "\<forall>k\<in>set ks. 0 \<le> k \<and> k < si"
    by (auto simp: ids_below_def)
  show ?thesis
  proof (cases "db_rejects w ''sections'' [VInt si, a, t, g] \<or> VInt si \<in> set (map hd (sections d))")
    case True
    then have "insert_row w d SECTIONS ''sections'' [VInt si, a, t, g] = d"
      by (simp add: insert_row_sections)
    moreover have "\<forall>k\<in>set ks. 0 \<le> k \<and> k < si + 1" using ks(4) by auto
    ultimately show ?thesis using ks(1,2,3) unfolding ids_below_def by auto
  next
    case False
    then have e: "insert_row w d SECTIONS ''sections'' [VInt si, a, t, g]
                = d\<lparr>sections := sections d @ [[VInt si, a, t, g]]\<rparr>"
      by (simp add: insert_row_sections)
    have 1: "map hd (sections d @ [[VInt si, a, t, g]]) = map VInt (ks @ [si])"
      using ks(2) by simp
    have 2: "sorted_wrt (<) (ks @ [si])"
      using ks(3,4) by (simp add: sorted_wrt_append)
    have 3: "\<forall>k\<in>set (ks @ [si]). 0 \<le> k \<and> k < si + 1"
      using ks(1,4) by auto
    show ?thesis
      unfolding ids_below_def e using ks(1) 1 2 3 by (intro conjI exI [of _ "ks @ [si]"]) simp_all
  qed
qed

lemma ids_below_insert_sections:
  "ids_below d si \<Longrightarrow>
   ids_below (fst (insert_sections w d si uid tags secs)) (si + int (length secs))"
proof (induction secs arbitrary: d si)
  case Nil
  then show ?case by simp
next
  case (Cons t secs)
  from ids_below_step [OF Cons.prems]
  have "ids_below (insert_row w d SECTIONS ''sections'' [VInt si, VStr uid, VStr t, opt_str tags]) (si + 1)" .
  from Cons.IH [OF this] show ?case by (simp add: add.assoc)
qed

lemma ids_below_articles:
  "ids_below d si \<Longrightarrow> ids_below (insert_row w d ARTICLES ''articles'' (article_tuple w directory r)) si"
  by (simp add: ids_below_def insert_row_articles_sections)

lemma ids_below_run_row:
  assumes "ids_below (store st) (sindex st)"
  shows "ids_below (store (run_row w directory r st)) (sindex (run_row w directory r st))"
proof (cases "sha r = [] \<and> sha1_hexdigest w (title r) \<in> ids st")
  case True
  with assms show ?thesis by (simp only: run_row_skip)
next
  case False
  have "ids_below (fst (insert_sections w
                    (insert_row w (store st) ARTICLES ''articles'' (article_tuple w directory r))
                    (sindex st) (canonical_id w r) (row_tags w directory r)
                    (title r # read w directory r)))
          (sindex st + int (length (title r # read w directory r)))"
    by (intro ids_below_insert_sections ids_below_articles assms)
  then show ?thesis by (simp add: run_row_process [OF False] add.assoc del: insert_sections.simps)
qed

lemma ids_below_run_rows:
  "ids_below (store st) (sindex st) \<Longrightarrow>
   ids_below (store (run_rows w directory rs st)) (sindex (run_rows w directory rs st))"
  by (induction rs arbitrary: st) (simp_all add: ids_below_run_row)

lemma ids_contiguous_step:
  assumes "ids_contiguous d si" "\<not> db_rejects w ''sections'' [VInt si, a, t, g]"
  shows "ids_contiguous (insert_row w d SECTIONS ''sections'' [VInt si, a, t, g]) (si + 1)"
proof -
  from assms(1) have si: "0 \<le> si" and m: "map hd (sections d) = map VInt [0..si - 1]"
    by (simp_all add: ids_contiguous_def)
  have "VInt si \<notin> set (map hd (sections d))" unfolding m by auto
  with assms(2) have e: "insert_row w d SECTIONS ''sections'' [VInt si, a, t, g]
                = d\<lparr>sections := sections d @ [[VInt si, a, t, g]]\<rparr>"
    by (simp add: insert_row_sections)
  have "[0..si] = [0..si - 1] @ [si]" using si by (simp add: upto_rec2)
  then have "map hd (sections d @ [[VInt si, a, t, g]]) = map VInt [0..si + 1 - 1]"
    using m by simp
  with si show ?thesis unfolding e ids_contiguous_def by simp
qed

lemma ids_contiguous_insert_sections:
  "ids_contiguous d si \<Longrightarrow> \<forall>vs. \<not> db_rejects w ''sections'' vs \<Longrightarrow>
   ids_contiguous (fst (insert_sections w d si uid tags secs)) (si + int (length secs))"
proof (induction secs arbitrary: d si)
  case Nil
  then show ?case by simp
next
  case (Cons t secs)
  from Cons.prems(2)
  have "\<not> db_rejects w ''sections'' [VInt si, VStr uid, VStr t, opt_str tags]" by blast
  from ids_contiguous_step [OF Cons.prems(1) this]
  have "ids_contiguous (insert_row w d SECTIONS ''sections'' [VInt si, VStr uid, VStr t, opt_str tags]) (si + 1)" .
  from Cons.IH [OF this Cons.prems(2)] show ?case by (simp add: add.assoc)
qed

lemma ids_contiguous_articles:
  "ids_contiguous d si \<Longrightarrow>
   ids_contiguous (insert_row w d ARTICLES ''articles'' (article_tuple w directory r)) si"
  by (simp add: ids_contiguous_def insert_row_articles_sections)

lemma ids_contiguous_run_row:
  assumes "ids_contiguous (store st) (sindex st)" "\<forall>vs. \<not> db_rejects w ''sections'' vs"
  shows "ids_contiguous (store (run_row w directory r st)) (sindex (run_row w directory r st))"
proof (cases "sha r = [] \<and> sha1_hexdigest w (title r) \<in> ids st")
  case True
  with assms show ?thesis by (simp only: run_row_skip)
next
  case False
  have "ids_contiguous (fst (insert_sections w
                    (insert_row w (store st) ARTICLES ''articles'' (article_tuple w directory r))
                    (sindex st) (canonical_id w r) (row_tags w directory r)
                    (title r # read w directory r)))
          (sindex st + int (length (title r # read w directory r)))"
    by (intro ids_contiguous_insert_sections ids_contiguous_articles assms)
  then show ?thesis by (simp add: run_row_process [OF False] add.assoc del: insert_sections.simps)
qed

lemma ids_contiguous_run_rows:
  "ids_contiguous (store st) (sindex st) \<Longrightarrow> \<forall>vs. \<not> db_rejects w ''sections'' vs \<Longrightarrow>
   ids_contiguous (store (run_rows w directory rs st)) (sindex (run_rows w directory rs st))"
  by (induction rs arbitrary: st) (simp_all add: ids_contiguous_run_row)

lemma ids_below_fresh:
  assumes "ids_below d si"
  shows "VInt si \<notin> set (map hd (sections d))"
proof -
  from assms obtain ks where ks: "map hd (sections d) = map VInt ks" "\<forall>k\<in>set ks. 0 \<le> k \<and> k < si"
    by (auto simp: ids_below_def)
  show ?thesis unfolding ks(1) using ks(2) by auto
qed

lemma insert_sections_stored:
  "ids_below d si \<Longrightarrow>
   sections (fst (insert_sections w d si (canonical_id w r) (row_tags w directory r) secs)) =
     sections d @ filter (\<lambda>s. \<not> db_rejects w ''sections'' s)
                    (map (\<lambda>(i, t). section_tuple w directory r i t) (numbered si secs))"
proof (induction secs arbitrary: d si)
  case Nil
  show ?case by simp
next
  case (Cons t secs)
  let ?s = "[VInt si, VStr (canonical_id w r), VStr t, opt_str (row_tags w directory r)]"
  let ?d' = "insert_row w d SECTIONS ''sections'' ?s"
  have s: "section_tuple w directory r si t = ?s" by (simp add: section_tuple_def)
  have b: "ids_below ?d' (si + 1)" by (rule ids_below_step [OF Cons.prems])
  have d': "sections ?d' = sections d @ filter (\<lambda>s. \<not> db_rejects w ''sections'' s) [?s]"
    using ids_below_fresh [OF Cons.prems] by (simp add: insert_row_sections)
  have "sections (fst (insert_sections w d si (canonical_id w r) (row_tags w directory r) (t # secs)))
      = sections (fst (insert_sections w ?d' (si + 1) (canonical_id w r) (row_tags w directory r) secs))"
    by simp
  also have "\<dots> = sections ?d' @ filter (\<lambda>s. \<not> db_rejects w ''sections'' s)
                    (map (\<lambda>(i, t). section_tuple w directory r i t) (numbered (si + 1) secs))"
    by (rule Cons.IH [OF b])
  finally show ?case unfolding d' by (simp add: s)
qed

lemma numbered_ids: "map fst (numbered si ts) = [si..si + int (length ts) - 1]"
proof (induction ts arbitrary: si)
  case Nil
  show ?case by simp
next
  case (Cons t ts)
  have "[si..si + int (length (t # ts)) - 1] = si # [si + 1..si + 1 + int (length ts) - 1]"
    by (subst upto_rec1) (simp_all add: add.commute add.left_commute)
  with Cons.IH [of "si + 1"] show ?case by simp
qed

lemma row_sections_ids:
  "map hd (row_sections w directory r si)
     = map VInt [si..si + int (length (read w directory r))]"
proof -
  have "map hd (row_sections w directory r si)
        = map VInt (map fst (numbered si (title r # read w directory r)))"
    unfolding row_sections_def by (simp add: section_tuple_def split_beta comp_def del: numbered.simps)
  then show ?thesis by (simp add: numbered_ids del: numbered.simps)
qed


lemma sindex_run_row: "sindex st \<le> sindex (run_row w directory r st)"
proof (cases "sha r = [] \<and> sha1_hexdigest w (title r) \<in> ids st")
  case True
  then show ?thesis by (simp only: run_row_skip)
next
  case False
  show ?thesis by (simp add: run_row_process [OF False] del: insert_sections.simps)
qed

lemma sindex_run_rows: "sindex st \<le> sindex (run_rows w directory rs st)"
proof (induction rs arbitrary: st)
  case Nil
  show ?case by simp
next
  case (Cons r rs)
  have "sindex st \<le> sindex (run_row w directory r st)" by (rule sindex_run_row)
  also have "\<dots> \<le> sindex (run_rows w directory rs (run_row w directory r st))" by (rule Cons.IH)
  finally show ?case by simp
qed

lemma handed_from_stored:
  "ids_below (store st) (sindex st) \<Longrightarrow>
   sections (store (run_rows w directory rs st)) =
     sections (store st) @ filter (\<lambda>s. \<not> db_rejects w ''sections'' s) (handed_from w directory rs st)"
proof (induction rs arbitrary: st)
  case Nil
  show ?case by simp
next
  case (Cons r rs)
  have b: "ids_below (store (run_row w directory r st)) (sindex (run_row w directory r st))"
    by (rule ids_below_run_row [OF Cons.prems])
  note IH = Cons.IH [OF b]
  show ?case
  proof (cases "sha r = [] \<and> sha1_hexdigest w (title r) \<in> ids st")
    case True
    then have "run_row w directory r st = st" by (simp only: run_row_skip)
    with IH True show ?thesis by simp
  next
    case False
    have "sections (store (run_row w directory r st)) =
            sections (insert_row w (store st) ARTICLES ''articles'' (article_tuple w directory r))
            @ filter (\<lambda>s. \<not> db_rejects w ''sections'' s) (row_sections w directory r (sindex st))"
      unfolding run_row_process [OF False] row_sections_def
      using insert_sections_stored [OF ids_below_articles [OF Cons.prems]]
      by (simp del: insert_sections.simps numbered.simps)
    then have "sections (store (run_row w directory r st)) =
            sections (store st)
            @ filter (\<lambda>s. \<not> db_rejects w ''sections'' s) (row_sections w directory r (sindex st))"
      by (simp only: insert_row_articles_sections)
    moreover have "handed_from w directory (r # rs) st =
        row_sections w directory r (sindex st) @ handed_from w directory rs (run_row w directory r st)"
      by (simp only: handed_from.simps if_not_P [OF False])
    ultimately show ?thesis using IH by simp
  qed
qed

lemma handed_from_ids:
  "map hd (handed_from w directory rs st)
     = map VInt [sindex st..sindex (run_rows w directory rs st) - 1]"
proof (induction rs arbitrary: st)
  case Nil
  show ?case by simp
next
  case (Cons r rs)
  let ?st' = "run_row w directory r st"
  note IH = Cons.IH [of ?st']
  show ?case
  proof (cases "sha r = [] \<and> sha1_hexdigest w (title r) \<in> ids st")
    case True
    then have "run_row w directory r st = st" by (simp only: run_row_skip)
    with IH True show ?thesis by simp
  next
    case False
    let ?n = "int (length (read w directory r))"
    have si: "sindex ?st' = sindex st + 1 + ?n"
      by (simp add: run_row_process [OF False] del: insert_sections.simps)
    have le: "sindex ?st' \<le> sindex (run_rows w directory rs ?st')" by (rule sindex_run_rows)
    have "[sindex st..sindex (run_rows w directory rs ?st') - 1]
          = [sindex st..sindex st + ?n] @ [sindex st + ?n + 1..sindex (run_rows w directory rs ?st') - 1]"
      using le si by (intro upto_split2) simp_all
    then have "map VInt [sindex st..sindex (run_rows w directory rs ?st') - 1]
          = map hd (row_sections w directory r (sindex st))
            @ map VInt [sindex ?st'..sindex (run_rows w directory rs ?st') - 1]"
      using si by (simp add: row_sections_ids ac_simps)
    moreover have "handed_from w directory (r # rs) st =
        row_sections w directory r (sindex st) @ handed_from w directory rs (run_row w directory r st)"
      by (simp only: handed_from.simps if_not_P [OF False])
    ultimately show ?thesis using IH by simp
  qed
qed

text \<open>
  C2, as the program has it. In every run the section tuples handed to the writer carry
  the ids 0, 1, 2, ... up to the final value of the counter \<open>sindex\<close>, without a gap and
  whatever the article boundaries; the store holds those of them on whose insert it did
  not raise. So the section ids in the store increase strictly in the order of
  insertion, none repeats, and all lie between 0 and the counter; they are exactly
  0, 1, 2, ... up to the counter when the store raises on no section insert. (The counter
  advances after every section insert, also after one that failed: the id of a skipped
  row is not used again and is missing from the store.)
\<close>

theorem section_ids_increasing:
  "map hd (handed_sections w directory rs) = map VInt [0..sindex (run w directory rs) - 1]
   \<and> sections (store (run w directory rs))
       = filter (\<lambda>s. \<not> db_rejects w ''sections'' s) (handed_sections w directory rs)
   \<and> (\<exists>ks. map hd (sections (store (run w directory rs))) = map VInt ks
         \<and> sorted_wrt (<) ks \<and> distinct ks
         \<and> (\<forall>k\<in>set ks. 0 \<le> k \<and> k < sindex (run w directory rs)))
   \<and> ((\<forall>vs. \<not> db_rejects w ''sections'' vs) \<longrightarrow>
        contiguous_ids (map hd (sections (store (run w directory rs))))
        \<and> int (length (sections (store (run w directory rs)))) = sindex (run w directory rs))"
proof -
  let ?st0 = "\<lparr>store = init, aindex = 0, sindex = 0, ids = {}\<rparr>"
  have b0: "ids_below (store ?st0) (sindex ?st0)" by (simp add: ids_below_def init_def)
  have c0: "ids_contiguous (store ?st0) (sindex ?st0)" by (simp add: ids_contiguous_def init_def)
  have h: "map hd (handed_sections w directory rs) = map VInt [0..sindex (run w directory rs) - 1]"
    using handed_from_ids [of w directory rs ?st0] by (simp add: handed_sections_def run_def)
  have f: "sections (store (run w directory rs))
       = filter (\<lambda>s. \<not> db_rejects w ''sections'' s) (handed_sections w directory rs)"
    using handed_from_stored [OF b0, of w directory rs]
    by (simp add: handed_sections_def run_def init_def)
  have "ids_below (store (run w directory rs)) (sindex (run w directory rs))"
    unfolding run_def by (rule ids_below_run_rows [OF b0])
  then obtain ks where ks: "map hd (sections (store (run w directory rs))) = map VInt ks"
      "sorted_wrt (<) ks" "\<forall>k\<in>set ks. 0 \<le> k \<and> k < sindex (run w directory rs)"
    unfolding ids_below_def by blast
  from ks(2) have "distinct ks" by (simp add: strict_sorted_iff)
  with ks have 1: "\<exists>ks. map hd (sections (store (run w directory rs))) = map VInt ks
         \<and> sorted_wrt (<) ks \<and> distinct ks
         \<and> (\<forall>k\<in>set ks. 0 \<le> k \<and> k < sindex (run w directory rs))" by blast
  have 2: "(\<forall>vs. \<not> db_rejects w ''sections'' vs) \<longrightarrow>
        contiguous_ids (map hd (sections (store (run w directory rs))))
        \<and> int (length (sections (store (run w directory rs)))) = sindex (run w directory rs)"
  proof
    assume "\<forall>vs. \<not> db_rejects w ''sections'' vs"
    from ids_contiguous_run_rows [OF c0 this, of directory rs]
    have si: "0 \<le> sindex (run w directory rs)"
      and m: "map hd (sections (store (run w directory rs)))
          = map VInt [0..sindex (run w directory rs) - 1]"
      by (simp_all add: run_def ids_contiguous_def)
    from arg_cong [OF m, of length] si
    have l: "int (length (sections (store (run w directory rs)))) = sindex (run w directory rs)"
      by simp
    have "contiguous_ids (map hd (sections (store (run w directory rs))))"
      unfolding contiguous_ids_def using m l by simp
    with l show "contiguous_ids (map hd (sections (store (run w directory rs))))
        \<and> int (length (sections (store (run w directory rs)))) = sindex (run w directory rs)"
      by blast
  qed
  from h f 1 2 show ?thesis by blast
qed

theorem section_ids_increasing_witness:
  "map hd (sections (store (run demo_world ''/data'' [demo_row, untitled_row])))
     = [VInt 0, VInt 1, VInt 2]"
proof -
  have n: "\<forall>vs. \<not> db_rejects demo_world ''sections'' vs" by (simp add: demo_world_def)
  have l: "length (sections (store (run demo_world ''/data'' [demo_row, untitled_row]))) = 3"
    by code_simp
  have u: "[0..(2::int)] = [0, 1, 2]" by code_simp
  from section_ids_increasing [of demo_world "''/data''" "[demo_row, untitled_row]"] n
  have "contiguous_ids (map hd (sections (store (run demo_world ''/data'' [demo_row, untitled_row]))))"
    by blast
  then show ?thesis unfolding contiguous_ids_def by (simp add: l u)
qed

text \<open>
  The ids of a run in which a section insert fails are not contiguous: with two rows,
  three sections and a store that raises on the second section, the store holds the ids
  0 and 2.
\<close>

theorem section_ids_gap:
  "map hd (sections (store (run gap_world ''/data'' [demo_row, untitled_row]))) = [VInt 0, VInt 2]
   \<and> \<not> contiguous_ids (map hd (sections (store (run gap_world ''/data'' [demo_row, untitled_row]))))"
proof -
  have a: "map hd (sections (store (run gap_world ''/data'' [demo_row, untitled_row]))) = [VInt 0, VInt 2]"
    by code_simp
  have u: "[0..(1::int)] = [0, 1]" by code_simp
  show ?thesis unfolding a contiguous_ids_def by (simp add: u)
qed

subsection \<open>Rows with and without an explicit identifier\<close>

lemma run_row_explicit:
  assumes "sha r \<noteq> []"
  shows "aindex (run_row w directory r st) = aindex st + 1"
    and "sindex (run_row w directory r st) = sindex st + 1 + int (length (read w directory r))"
    and "ids (run_row w directory r st) = ids st"
    and "articles (store (run_row w directory r st)) =
          articles (insert_row w (store st) ARTICLES ''articles'' (article_tuple w directory r))"
proof -
  from assms have n: "\<not> (sha r = [] \<and> sha1_hexdigest w (title r) \<in> ids st)" by simp
  show "aindex (run_row w directory r st) = aindex st + 1"
    by (simp add: run_row_process [OF n] del: insert_sections.simps)
  show "sindex (run_row w directory r st) = sindex st + 1 + int (length (read w directory r))"
    by (simp add: run_row_process [OF n] del: insert_sections.simps)
  show "ids (run_row w directory r st) = ids st"
    using assms by (simp add: run_row_process [OF n] del: insert_sections.simps)
  show "articles (store (run_row w directory r st)) =
          articles (insert_row w (store st) ARTICLES ''articles'' (article_tuple w directory r))"
    by (simp add: run_row_process [OF n] insert_sections_articles del: insert_sections.simps)
qed

lemma run_single_fallback:
  assumes "sha r = []"
  shows "sections (store (run w directory [r])) =
           (if db_rejects w ''sections'' (section_tuple w directory r 0 (title r)) then []
            else [section_tuple w directory r 0 (title r)])"
    and "articles (store (run w directory [r])) =
           (if db_rejects w ''articles'' (article_tuple w directory r) then []
            else [article_tuple w directory r])"
proof -
  let ?st0 = "\<lparr>store = init, aindex = 0, sindex = 0, ids = {}\<rparr>"
  have n: "\<not> (sha r = [] \<and> sha1_hexdigest w (title r) \<in> ids ?st0)" by simp
  have rd: "read w directory r = []" using assms by (simp add: read_eq)
  show "sections (store (run w directory [r])) =
           (if db_rejects w ''sections'' (section_tuple w directory r 0 (title r)) then []
            else [section_tuple w directory r 0 (title r)])"
    unfolding run_def run_rows.simps run_row_process [OF n, of directory]
    by (simp add: rd insert_row_sections insert_row_articles_sections section_tuple_def init_def)
  show "articles (store (run w directory [r])) =
           (if db_rejects w ''articles'' (article_tuple w directory r) then []
            else [article_tuple w directory r])"
    unfolding run_def run_rows.simps run_row_process [OF n, of directory]
    by (simp add: insert_sections_articles del: insert_sections.simps)
       (simp add: article_tuple_def insert_row_articles init_def)
qed

text \<open>
  C3. Of two rows without \<open>sha\<close> and with the same title, the later one produces no
  output at all: the run is the run without it, whatever rows stand before, between and
  after the two. For a table of exactly these two rows the store holds the article and
  the title section of the first row only (each unless the store raises on its insert).
  The rejection concerns generated identifiers only: a row with a \<open>sha\<close> is never
  rejected by \<open>getIds\<close>, whatever was generated or seen before, and \<open>run\<close> always counts
  its article and hands its sections to the store.
\<close>

theorem duplicate_title_skipped:
  assumes "sha r1 = []" "sha r2 = []" "title r1 = title r2"
  shows "run w directory (pre @ r1 # mid @ r2 # post) = run w directory (pre @ r1 # mid @ post)
     \<and> sections (store (run w directory [r1, r2])) =
           (if db_rejects w ''sections'' (section_tuple w directory r1 0 (title r1)) then []
            else [section_tuple w directory r1 0 (title r1)])
     \<and> articles (store (run w directory [r1, r2])) =
           (if db_rejects w ''articles'' (article_tuple w directory r1) then []
            else [article_tuple w directory r1])
     \<and> (sha r \<noteq> [] \<longrightarrow>
           getIds w r seen = (Some (py_split (sha r) ''; ''), seen)
           \<and> aindex (run_row w directory r st) = aindex st + 1
           \<and> sindex (run_row w directory r st) = sindex st + 1 + int (length (read w directory r)))"
proof -
  have skip: "run w directory (pre @ r1 # mid @ r2 # post) = run w directory (pre @ r1 # mid @ post)"
    for pre mid post
    unfolding run_def by (rule duplicate_run_rows [OF assms])
  from skip [of "[]" "[]" "[]"] have two: "run w directory [r1, r2] = run w directory [r1]"
    by simp
  have explicit: "sha r \<noteq> [] \<longrightarrow>
           getIds w r seen = (Some (py_split (sha r) ''; ''), seen)
           \<and> aindex (run_row w directory r st) = aindex st + 1
           \<and> sindex (run_row w directory r st) = sindex st + 1 + int (length (read w directory r))"
    by (simp add: getIds_eq run_row_explicit)
  show ?thesis
    using skip [of pre mid post] explicit
    unfolding two run_single_fallback [OF assms(1)] by blast
qed

theorem duplicate_title_skipped_witness:
  "run demo_world ''/data'' [untitled_row, demo_row, untitled_row]
     = run demo_world ''/data'' [untitled_row, demo_row]
   \<and> sections (store (run demo_world ''/data'' [untitled_row, untitled_row])) =
       [[VInt 0, VStr ''d74bc42c11e3780750f07a32d1c239f5ba82b072'', VStr ''Same title'', VNone]]
   \<and> length (articles (store (run demo_world ''/data'' [untitled_row, untitled_row]))) = 1
   \<and> sindex (run_row demo_world ''/data'' demo_row
               (run_row demo_world ''/data'' demo_row
                  \<lparr>store = init, aindex = 0, sindex = 0, ids = {}\<rparr>)) = 4"
proof -
  have e: "sha untitled_row = []" by (simp add: untitled_row_def)
  have x: "sha demo_row \<noteq> []" by (simp add: demo_row_def)
  have s: "section_tuple demo_world ''/data'' untitled_row 0 (title untitled_row)
           = [VInt 0, VStr ''d74bc42c11e3780750f07a32d1c239f5ba82b072'', VStr ''Same title'', VNone]"
    by code_simp
  have n: "\<not> db_rejects demo_world name vs" for name vs by (simp add: demo_world_def)
  have rd: "length (read demo_world ''/data'' demo_row) = 1" by code_simp
  let ?st0 = "\<lparr>store = init, aindex = 0, sindex = 0, ids = {}\<rparr>"
  let ?st1 = "run_row demo_world ''/data'' demo_row ?st0"
  note t1 = duplicate_title_skipped [OF e e refl, where w = demo_world and directory = "''/data''"
      and pre = "[]" and mid = "[demo_row]" and post = "[]" and r = demo_row and seen = "{}"
      and st = ?st0]
  note t2 = duplicate_title_skipped [OF e e refl, where w = demo_world and directory = "''/data''"
      and pre = "[]" and mid = "[]" and post = "[]" and r = demo_row and seen = "{}"
      and st = ?st1]
  have 1: "run demo_world ''/data'' [untitled_row, demo_row, untitled_row]
             = run demo_world ''/data'' [untitled_row, demo_row]"
    using t1 [THEN conjunct1] by simp
  have a: "sindex ?st1 = sindex ?st0 + 1 + int (length (read demo_world ''/data'' demo_row))"
    using t1 [THEN conjunct2, THEN conjunct2, THEN conjunct2] x by simp
  have 2: "sections (store (run demo_world ''/data'' [untitled_row, untitled_row])) =
       [[VInt 0, VStr ''d74bc42c11e3780750f07a32d1c239f5ba82b072'', VStr ''Same title'', VNone]]"
    using t2 [THEN conjunct2, THEN conjunct1] n s by simp
  have 3: "length (articles (store (run demo_world ''/data'' [untitled_row, untitled_row]))) = 1"
    using t2 [THEN conjunct2, THEN conjunct2, THEN conjunct1] n by simp
  have b: "sindex (run_row demo_world ''/data'' demo_row ?st1)
             = sindex ?st1 + 1 + int (length (read demo_world ''/data'' demo_row))"
    using t2 [THEN conjunct2, THEN conjunct2, THEN conjunct2] x by simp
  from a b have 4: "sindex (run_row demo_world ''/data'' demo_row ?st1) = 4"
    by (simp add: rd)
  from 1 2 3 4 show ?thesis by simp
qed

text \<open>
  C6. For a row with a non-empty \<open>sha\<close>, \<open>getIds\<close> returns the list of the field split
  at \<open>"; "\<close> as it is (joining it gives the field back) and leaves the generated ids
  alone; the article tuple starts with the first identifier of that list, and the row
  \<open>run\<close> adds to the articles, when the store accepts it, is this tuple unchanged.
\<close>

theorem explicit_id_first:
  assumes "sha r \<noteq> []"
  shows "getIds w r seen = (Some (py_split (sha r) ''; ''), seen)
     \<and> py_join ''; '' (py_split (sha r) ''; '') = sha r
     \<and> hd (article_tuple w directory r) = VStr (hd (py_split (sha r) ''; ''))
     \<and> articles (store (run_row w directory r st)) =
         (if db_rejects w ''articles'' (article_tuple w directory r)
             \<or> VStr (hd (py_split (sha r) ''; '')) \<in> set (map hd (articles (store st)))
          then articles (store st)
          else articles (store st) @ [article_tuple w directory r])"
proof -
  have 1: "getIds w r seen = (Some (py_split (sha r) ''; ''), seen)"
    using assms by (simp add: getIds_eq)
  have 2: "py_join ''; '' (py_split (sha r) ''; '') = sha r" by (rule join_split)
  have c: "canonical_id w r = hd (py_split (sha r) ''; '')"
    using assms by (simp add: canonical_id_def)
  have 3: "hd (article_tuple w directory r) = VStr (hd (py_split (sha r) ''; ''))"
    by (simp add: article_tuple_def c)
  have "articles (insert_row w (store st) ARTICLES ''articles'' (article_tuple w directory r)) =
         (if db_rejects w ''articles'' (article_tuple w directory r)
             \<or> VStr (canonical_id w r) \<in> set (map hd (articles (store st)))
          then articles (store st)
          else articles (store st) @ [article_tuple w directory r])"
    by (simp add: article_tuple_def insert_row_articles)
  then have 4: "articles (store (run_row w directory r st)) =
         (if db_rejects w ''articles'' (article_tuple w directory r)
             \<or> VStr (hd (py_split (sha r) ''; '')) \<in> set (map hd (articles (store st)))
          then articles (store st)
          else articles (store st) @ [article_tuple w directory r])"
    by (simp only: run_row_explicit(4) [OF assms] c)
  from 1 2 3 4 show ?thesis by blast
qed

theorem explicit_id_first_witness:
  "getIds demo_world two_ids_row {} = (Some [''abc'', ''def''], {})
   \<and> map hd (articles (store (run_row demo_world ''/data'' two_ids_row
                 \<lparr>store = init, aindex = 0, sindex = 0, ids = {}\<rparr>))) = [VStr ''abc'']"
proof -
  have x: "sha two_ids_row \<noteq> []" by (simp add: two_ids_row_def demo_row_def)
  have p: "py_split (sha two_ids_row) ''; '' = [''abc'', ''def'']" by code_simp
  have n: "\<not> db_rejects demo_world name vs" for name vs by (simp add: demo_world_def)
  note t = explicit_id_first [OF x, of demo_world "{}" "''/data''"
      "\<lparr>store = init, aindex = 0, sindex = 0, ids = {}\<rparr>"]
  from t have 1: "getIds demo_world two_ids_row {} = (Some [''abc'', ''def''], {})"
    by (simp add: p)
  from t have "map hd (articles (store (run_row demo_world ''/data'' two_ids_row
                 \<lparr>store = init, aindex = 0, sindex = 0, ids = {}\<rparr>)))
        = [hd (article_tuple demo_world ''/data'' two_ids_row)]"
    by (simp add: n init_def)
  with t have 2: "map hd (articles (store (run_row demo_world ''/data'' two_ids_row
                 \<lparr>store = init, aindex = 0, sindex = 0, ids = {}\<rparr>))) = [VStr ''abc'']"
    by (simp add: p)
  from 1 2 show ?thesis by blast
qed

subsection \<open>The tags of an article and of its sections\<close>

lemma run_snoc: "run w directory (pre @ [r]) = run_row w directory r (run w directory pre)"
  by (simp add: run_def run_rows_append)

lemma run_ids_below: "ids_below (store (run w directory rs)) (sindex (run w directory rs))"
proof -
  let ?st0 = "\<lparr>store = init, aindex = 0, sindex = 0, ids = {}\<rparr>"
  have "ids_below (store ?st0) (sindex ?st0)" by (simp add: ids_below_def init_def)
  then show ?thesis unfolding run_def by (rule ids_below_run_rows)
qed

lemma run_row_sections:
  assumes "ids_below (store st) (sindex st)"
  shows "sections (store (run_row w directory r st)) =
           sections (store st)
           @ (if sha r = [] \<and> sha1_hexdigest w (title r) \<in> ids st then []
              else filter (\<lambda>s. \<not> db_rejects w ''sections'' s) (row_sections w directory r (sindex st)))"
  using handed_from_stored [OF assms, of w directory "[r]"] by simp

lemma run_row_articles:
  "articles (store (run_row w directory r st)) =
     articles (store st)
     @ (if (sha r = [] \<and> sha1_hexdigest w (title r) \<in> ids st)
           \<or> db_rejects w ''articles'' (article_tuple w directory r)
           \<or> VStr (canonical_id w r) \<in> set (map hd (articles (store st)))
        then [] else [article_tuple w directory r])"
proof (cases "sha r = [] \<and> sha1_hexdigest w (title r) \<in> ids st")
  case True
  then have "run_row w directory r st = st" by (simp only: run_row_skip)
  with True show ?thesis by simp
next
  case False
  have a: "articles (store (run_row w directory r st)) =
          articles (insert_row w (store st) ARTICLES ''articles'' (article_tuple w directory r))"
    by (simp add: run_row_process [OF False] insert_sections_articles del: insert_sections.simps)
  have b: "articles (insert_row w (store st) ARTICLES ''articles'' (article_tuple w directory r)) =
         articles (store st)
         @ (if db_rejects w ''articles'' (article_tuple w directory r)
             \<or> VStr (canonical_id w r) \<in> set (map hd (articles (store st)))
          then [] else [article_tuple w directory r])"
    by (simp add: article_tuple_def insert_row_articles)
  show ?thesis unfolding a b using False by (simp only: simp_thms if_False)
qed

lemma articles_run_rows:
  "prefix (articles (store st)) (articles (store (run_rows w directory rs st)))"
proof (induction rs arbitrary: st)
  case Nil
  show ?case by simp
next
  case (Cons r rs)
  have "prefix (articles (store st)) (articles (store (run_row w directory r st)))"
    by (subst run_row_articles) simp
  also have "prefix \<dots> (articles (store (run_rows w directory rs (run_row w directory r st))))"
    by (rule Cons.IH)
  finally show ?case by simp
qed

lemma sections_run_rows:
  "ids_below (store st) (sindex st) \<Longrightarrow>
   prefix (sections (store st)) (sections (store (run_rows w directory rs st)))"
  by (simp add: handed_from_stored)

text \<open>
  C9. Take any row \<open>r\<close> of the metadata table, the rows \<open>pre\<close> before it and the rows
  \<open>post\<close> after it. Working on \<open>r\<close> adds to the sections table exactly the tuples of the
  fragments of \<open>r\<close> on whose insert the store does not raise (none if \<open>r\<close> is skipped as a
  duplicate), each with the identifier of \<open>r\<close> and, as its tags, the one value that
  \<open>getTags\<close> gives for the title and body sections of \<open>r\<close>. The article tuple of \<open>r\<close>,
  which is added when the store accepts it, carries the same value as its tags. What
  the rows after \<open>r\<close> add comes behind: the rows written for \<open>r\<close> stay as they are. So
  the tags of a section are those computed for its own document when it was inserted,
  whatever the article row with that identifier holds.
\<close>

theorem section_tags_snapshot:
  "sections (store (run w directory (pre @ [r]))) =
     sections (store (run w directory pre))
     @ (if sha r = [] \<and> sha1_hexdigest w (title r) \<in> ids (run w directory pre) then []
        else filter (\<lambda>s. \<not> db_rejects w ''sections'' s)
               (map (\<lambda>(i, t). [VInt i, VStr (canonical_id w r), VStr t,
                                opt_str (getTags (title r # read w directory r))])
                    (numbered (sindex (run w directory pre)) (title r # read w directory r))))
   \<and> articles (store (run w directory (pre @ [r]))) =
     articles (store (run w directory pre))
     @ (if (sha r = [] \<and> sha1_hexdigest w (title r) \<in> ids (run w directory pre))
           \<or> db_rejects w ''articles'' (article_tuple w directory r)
           \<or> VStr (canonical_id w r) \<in> set (map hd (articles (store (run w directory pre))))
        then [] else [article_tuple w directory r])
   \<and> article_tuple w directory r ! 0 = VStr (canonical_id w r)
   \<and> article_tuple w directory r ! 6 = opt_str (getTags (title r # read w directory r))
   \<and> prefix (sections (store (run w directory (pre @ [r]))))
             (sections (store (run w directory (pre @ r # post))))
   \<and> prefix (articles (store (run w directory (pre @ [r]))))
             (articles (store (run w directory (pre @ r # post))))"
proof -
  have 1: "sections (store (run w directory (pre @ [r]))) =
     sections (store (run w directory pre))
     @ (if sha r = [] \<and> sha1_hexdigest w (title r) \<in> ids (run w directory pre) then []
        else filter (\<lambda>s. \<not> db_rejects w ''sections'' s)
               (map (\<lambda>(i, t). [VInt i, VStr (canonical_id w r), VStr t,
                                opt_str (getTags (title r # read w directory r))])
                    (numbered (sindex (run w directory pre)) (title r # read w directory r))))"
    unfolding run_snoc run_row_sections [OF run_ids_below]
    by (simp only: row_sections_def section_tuple_def row_tags_def)
  have 2: "articles (store (run w directory (pre @ [r]))) =
     articles (store (run w directory pre))
     @ (if (sha r = [] \<and> sha1_hexdigest w (title r) \<in> ids (run w directory pre))
           \<or> db_rejects w ''articles'' (article_tuple w directory r)
           \<or> VStr (canonical_id w r) \<in> set (map hd (articles (store (run w directory pre))))
        then [] else [article_tuple w directory r])"
    unfolding run_snoc by (rule run_row_articles)
  have 3: "article_tuple w directory r ! 0 = VStr (canonical_id w r)"
    and 4: "article_tuple w directory r ! 6 = opt_str (getTags (title r # read w directory r))"
    by (simp_all add: article_tuple_def row_tags_def)
  have 5: "prefix (sections (store (run w directory (pre @ [r]))))
             (sections (store (run w directory (pre @ r # post))))"
    using sections_run_rows [OF run_ids_below, where w = w and directory = directory
        and rs = post and rs1 = "pre @ [r]"]
    by (simp add: run_def run_rows_append)
  have 6: "prefix (articles (store (run w directory (pre @ [r]))))
             (articles (store (run w directory (pre @ r # post))))"
    using articles_run_rows [where st = "run w directory (pre @ [r])" and w = w
        and directory = directory and rs = post]
    by (simp add: run_def run_rows_append)
  from 1 2 3 4 5 6 show ?thesis by (intro conjI)
qed

theorem section_tags_snapshot_witness:
  "sections (store (run demo_world ''/data'' [demo_row, covid_row])) =
     [[VInt 0, VStr ''abc'', VStr ''T'', VNone],
      [VInt 1, VStr ''abc'', VStr ''Hello world.'', VNone],
      [VInt 2, VStr ''abc'', VStr ''COVID-19 outbreak report'', VStr ''COVID-19''],
      [VInt 3, VStr ''abc'', VStr ''Hello world.'', VStr ''COVID-19'']]
   \<and> map (\<lambda>a. (a ! 0, a ! 6)) (articles (store (run demo_world ''/data'' [demo_row, covid_row])))
       = [(VStr ''abc'', VNone)]"
proof -
  have s0: "sections (store (run demo_world ''/data'' [demo_row])) =
     [[VInt 0, VStr ''abc'', VStr ''T'', VNone],
      [VInt 1, VStr ''abc'', VStr ''Hello world.'', VNone]]"
    by code_simp
  have a0: "map (\<lambda>a. (a ! 0, a ! 6)) (articles (store (run demo_world ''/data'' [demo_row])))
       = [(VStr ''abc'', VNone)]"
    by code_simp
  have k0: "map hd (articles (store (run demo_world ''/data'' [demo_row]))) = [VStr ''abc'']"
    by code_simp
  have si: "sindex (run demo_world ''/data'' [demo_row]) = 2" by code_simp
  have sh: "sha covid_row \<noteq> []" by (simp add: covid_row_def demo_row_def)
  have ci: "canonical_id demo_world covid_row = ''abc''" by code_simp
  have ti: "title covid_row = ''COVID-19 outbreak report''" by (simp add: covid_row_def)
  have rd: "read demo_world ''/data'' covid_row = [''Hello world.'']" by code_simp
  have tg: "getTags [''COVID-19 outbreak report'', ''Hello world.''] = Some ''COVID-19''"
    by code_simp
  have n: "\<not> db_rejects demo_world name vs" for name vs by (simp add: demo_world_def)
  note t = section_tags_snapshot [of demo_world "''/data''" "[demo_row]" covid_row "[]"]
  from t [THEN conjunct1]
  have 1: "sections (store (run demo_world ''/data'' [demo_row, covid_row])) =
     [[VInt 0, VStr ''abc'', VStr ''T'', VNone],
      [VInt 1, VStr ''abc'', VStr ''Hello world.'', VNone],
      [VInt 2, VStr ''abc'', VStr ''COVID-19 outbreak report'', VStr ''COVID-19''],
      [VInt 3, VStr ''abc'', VStr ''Hello world.'', VStr ''COVID-19'']]"
    by (simp add: s0 si sh ci ti rd tg n opt_str_def)
  from t [THEN conjunct2, THEN conjunct1]
  have "articles (store (run demo_world ''/data'' [demo_row, covid_row]))
        = articles (store (run demo_world ''/data'' [demo_row]))"
    by (simp add: sh ci k0)
  with a0 have 2: "map (\<lambda>a. (a ! 0, a ! 6)) (articles (store (run demo_world ''/data'' [demo_row, covid_row])))
       = [(VStr ''abc'', VNone)]"
    by simp
  from 1 2 show ?thesis by (intro conjI)
qed

subsection \<open>A run over one row\<close>

lemma article_path_plain:
  assumes "directory \<noteq> []" "last directory \<noteq> CHR ''/''"
  shows "article_path directory ''S'' ''abc'' = directory @ ''/S/S/abc.json''"
  using assms by (simp add: article_path_def path_join_def join_step_def startswith_def)

text \<open>
  C1. A metadata table with the single row \<open>sha = "abc"\<close>, \<open>title = "T"\<close>,
  \<open>full_text_file = "S"\<close>; a body file at the derived path (\<open>directory/S/S/abc.json\<close> for
  a directory name that does not end with a separator) with the one block
  \<open>{"text": "Hello world."}\<close>, which is one sentence; a store that raises on no insert.
  Then the run leaves exactly one article row, with \<open>Id = "abc"\<close>, and exactly two
  section rows, in this order: article \<open>abc\<close> with text \<open>T\<close>, article \<open>abc\<close> with text
  \<open>Hello world.\<close> (with the section ids 0 and 1 and no tags).
\<close>

theorem run_end_to_end:
  assumes "sha r = ''abc''" "title r = ''T''" "full_text_file r = ''S''"
    and "load_body w (article_path directory ''S'' ''abc'') = Inr [TextBlock ''Hello world.'']"
    and "sent_tokenize w ''Hello world.'' = [''Hello world.'']"
    and "\<forall>name vs. \<not> db_rejects w name vs"
  shows "articles (store (run w directory [r])) =
           [[VStr ''abc'', VStr (source_x r), opt_date (getDate w r), VStr (journal r),
             VStr (authors r), VStr ''T'', VNone, opt_str (getReference r)]]
       \<and> sections (store (run w directory [r])) =
           [[VInt 0, VStr ''abc'', VStr ''T'', VNone],
            [VInt 1, VStr ''abc'', VStr ''Hello world.'', VNone]]
       \<and> (directory \<noteq> [] \<and> last directory \<noteq> CHR ''/'' \<longrightarrow>
            article_path directory ''S'' ''abc'' = directory @ ''/S/S/abc.json'')"
proof -
  let ?st0 = "\<lparr>store = init, aindex = 0, sindex = 0, ids = {}\<rparr>"
  have sp: "py_split ''abc'' ''; '' = [''abc'']" by code_simp
  have mk: "\<not> py_in marker ''Hello world.''" by code_simp
  have rd: "read w directory r = [''Hello world.'']"
    using assms(1,3,4,5) mk by (simp add: read_eq sp)
  have tg: "getTags [''T'', ''Hello world.''] = None" by code_simp
  have rt: "row_tags w directory r = None"
    using assms(2) by (simp add: row_tags_def rd tg)
  have ci: "canonical_id w r = ''abc''"
    using assms(1) by (simp add: canonical_id_def sp)
  have at: "article_tuple w directory r =
           [VStr ''abc'', VStr (source_x r), opt_date (getDate w r), VStr (journal r),
             VStr (authors r), VStr ''T'', VNone, opt_str (getReference r)]"
    using assms(2) by (simp add: article_tuple_def ci rt opt_str_def)
  have n: "\<not> (sha r = [] \<and> sha1_hexdigest w (title r) \<in> ids ?st0)" by simp
  have rj: "\<not> db_rejects w name vs" for name vs using assms(6) by blast
  have run: "store (run w directory [r]) =
      fst (insert_sections w (insert_row w init ARTICLES ''articles'' (article_tuple w directory r))
             0 ''abc'' None [''T'', ''Hello world.''])"
    unfolding run_def run_rows.simps run_row_process [OF n, of directory]
    using assms(2) by (simp add: rd rt ci del: insert_sections.simps)
  have d1: "insert_row w init ARTICLES ''articles'' (article_tuple w directory r)
            = \<lparr>articles = [article_tuple w directory r], sections = []\<rparr>"
    unfolding at by (simp add: insert_row_articles rj init_def)
  have 1: "articles (store (run w directory [r])) = [article_tuple w directory r]"
    unfolding run insert_sections_articles d1 by simp
  have 2: "sections (store (run w directory [r])) =
           [[VInt 0, VStr ''abc'', VStr ''T'', VNone],
            [VInt 1, VStr ''abc'', VStr ''Hello world.'', VNone]]"
    unfolding run d1 by (simp add: insert_row_sections rj opt_str_def)
  from 1 2 at article_path_plain [of directory] show ?thesis by simp
qed

theorem run_end_to_end_witness:
  "articles (store (run demo_world ''/data'' [demo_row])) =
     [[VStr ''abc'', VStr ''PMC'', VDate (Datetime 2020 1 1), VStr ''J'', VStr ''A'', VStr ''T'',
       VNone, VNone]]
   \<and> sections (store (run demo_world ''/data'' [demo_row])) =
     [[VInt 0, VStr ''abc'', VStr ''T'', VNone],
      [VInt 1, VStr ''abc'', VStr ''Hello world.'', VNone]]
   \<and> article_path ''/data'' ''S'' ''abc'' = ''/data/S/S/abc.json''"
proof -
  have p: "article_path ''/data'' ''S'' ''abc'' = ''/data/S/S/abc.json''" by code_simp
  have h1: "sha demo_row = ''abc''" and h2: "title demo_row = ''T''"
    and h3: "full_text_file demo_row = ''S''"
    by (simp_all add: demo_row_def)
  have h4: "load_body demo_world (article_path ''/data'' ''S'' ''abc'') = Inr [TextBlock ''Hello world.'']"
    unfolding p by (simp add: demo_world_def)
  have h5: "sent_tokenize demo_world ''Hello world.'' = [''Hello world.'']"
    by (simp add: demo_world_def)
  have h6: "\<forall>name vs. \<not> db_rejects demo_world name vs" by (simp add: demo_world_def)
  have g: "opt_date (getDate demo_world demo_row) = VDate (Datetime 2020 1 1)" by code_simp
  have f: "opt_str (getReference demo_row) = VNone" by code_simp
  have x: "source_x demo_row = ''PMC''" "journal demo_row = ''J''" "authors demo_row = ''A''"
    by (simp_all add: demo_row_def)
  from run_end_to_end [OF h1 h2 h3 h4 h5 h6] show ?thesis
    by (simp add: g f x p)
qed

end
